theory Spec2Isabelle
  imports Main "HOL-Library.Word" "HOL-Library.Monad_Syntax" "HOL-Library.AList"
begin

unbundle bit_operations_syntax

section \<open>The Hypo virtual machine (package cpu)\<close>

text \<open>
  Go's \<^verbatim>\<open>byte\<close> and \<^verbatim>\<open>uint32\<close> are words of 8 and 32 bits; arithmetic on them wraps.
  The register file \<^verbatim>\<open>[8]uint32\<close> and the memory \<^verbatim>\<open>[8192]byte\<close> are arrays of a
  fixed size: they are functions from the index, and every access checks the index
  against the array's length the way Go's runtime does. A run-time panic (index or
  slice bounds out of range) ends the process: functions that can panic return
  an option, and \<open>None\<close> is the panic.
\<close>

type_synonym byte = "8 word"
type_synonym u32 = "32 word"

datatype cpu_error =
    CouldNotReadHeader
  | BadHeader
  | BadRead
  | InvalidRegister byte
  | IllegalRead u32
  | IllegalWrite u32 u32
  | InvalidOpcode byte
  | NegativePosition

record Cpu =
  reg :: "nat \<Rightarrow> u32"
  mem :: "nat \<Rightarrow> byte"
  pc :: u32
  flags :: u32
  err :: "cpu_error option"
  buf :: "byte list"
  pos :: nat
  out :: "u32 list"

text \<open>\<open>buf\<close> and \<open>pos\<close> are the bytes.Reader (its slice and its index); \<open>out\<close> is
  the standard output, as the list of the code points that \<^verbatim>\<open>p\<close> has printed (Go
  writes each in UTF-8).\<close>

definition reg_len :: nat where
  "reg_len = 8"

definition mem_len :: nat where
  "mem_len = 8192"

definition Hdr :: "byte list" where
  "Hdr = [0x48, 0x59, 0x50, 0x00]"

definition OpNop :: byte where "OpNop = 0"
definition OpLd :: byte where "OpLd = 1"
definition OpLr :: byte where "OpLr = 2"
definition OpSt :: byte where "OpSt = 3"
definition OpAdd :: byte where "OpAdd = 4"
definition OpSub :: byte where "OpSub = 5"
definition OpAddi :: byte where "OpAddi = 6"
definition OpSubi :: byte where "OpSubi = 7"
definition OpP :: byte where "OpP = 8"
definition OpBeq :: byte where "OpBeq = 9"
definition OpBne :: byte where "OpBne = 10"
definition OpBgt :: byte where "OpBgt = 11"
definition OpBlt :: byte where "OpBlt = 12"
definition OpJ :: byte where "OpJ = 13"
definition OpJr :: byte where "OpJr = 14"
definition OpCall :: byte where "OpCall = 15"
definition OpExit :: byte where "OpExit = 16"

text \<open>\<^verbatim>\<open>New\<close>: bytes.Reader.Read fails only at the end of the input (an empty file);
  a file shorter than the header is read as far as it goes, into a zeroed buffer.\<close>

definition New :: "byte list \<Rightarrow> cpu_error + Cpu" where
  "New b =
     (let c = \<lparr>reg = (\<lambda>_. 0), mem = (\<lambda>_. 0), pc = 0, flags = 0, err = None,
                buf = b, pos = 0, out = []\<rparr>
      in if length b = 0 then Inl CouldNotReadHeader
         else let n = min (length Hdr) (length b);
                  hdr = take n b @ replicate (length Hdr - n) 0
              in if hdr \<noteq> Hdr then Inl BadHeader else Inr (c\<lparr>pos := n\<rparr>))"

text \<open>\<^verbatim>\<open>c.read\<close>: binary.Read of a value of \<open>n\<close> bytes (io.ReadFull). On a short read
  the cursor stops at the end of the input, the value stays zero and \<open>err\<close> is set;
  on success \<open>err\<close> is left as it was.\<close>

definition read :: "nat \<Rightarrow> Cpu \<Rightarrow> byte list \<times> Cpu" where
  "read n c =
     (if pos c + n \<le> length (buf c)
      then (take n (drop (pos c) (buf c)), c\<lparr>pos := pos c + n\<rparr>)
      else (replicate n 0, c\<lparr>err := Some BadRead, pos := max (pos c) (length (buf c))\<rparr>))"

definition le32 :: "byte \<Rightarrow> byte \<Rightarrow> byte \<Rightarrow> byte \<Rightarrow> u32" where
  "le32 b0 b1 b2 b3 =
     push_bit 24 (ucast b3) OR push_bit 16 (ucast b2) OR push_bit 8 (ucast b1) OR ucast b0"

definition checkReg :: "byte \<Rightarrow> Cpu \<Rightarrow> cpu_error option \<times> Cpu" where
  "checkReg r c =
     (let c' = (if unat r > reg_len
                then c\<lparr>err := Some (InvalidRegister r), flags := flags c OR 1\<rparr>
                else c)
      in (err c', c'))"

definition readReg :: "byte \<Rightarrow> Cpu \<Rightarrow> (u32 \<times> Cpu) option" where
  "readReg r c =
     (case checkReg r c of
        (None, c') \<Rightarrow> if unat r < reg_len then Some (reg c' (unat r), c') else None
      | (Some e, c') \<Rightarrow> Some (0, c'))"

definition writeReg :: "byte \<Rightarrow> u32 \<Rightarrow> Cpu \<Rightarrow> Cpu option" where
  "writeReg r i c =
     (case checkReg r c of
        (None, c') \<Rightarrow>
          if unat r < reg_len then Some (c'\<lparr>reg := (reg c')(unat r := i)\<rparr>) else None
      | (Some e, c') \<Rightarrow> Some c')"

text \<open>\<^verbatim>\<open>readImm\<close> slices \<^verbatim>\<open>c.mem[addr:4]\<close>: Go panics unless \<open>addr \<le> 4\<close>, and the
  slice then has \<open>4 - addr\<close> elements, of which \<^verbatim>\<open>i[3]\<close> is read first.\<close>

definition readImm :: "u32 \<Rightarrow> Cpu \<Rightarrow> (u32 \<times> cpu_error option) option" where
  "readImm a c =
     (if unat a > mem_len then Some (0, Some (IllegalRead a))
      else if 4 < unat a then None
      else let i = map (mem c) [unat a ..< 4]
           in if length i \<le> 3 then None
              else Some (le32 (i ! 0) (i ! 1) (i ! 2) (i ! 3), None))"

definition mem_store :: "nat \<Rightarrow> byte \<Rightarrow> Cpu \<Rightarrow> Cpu option" where
  "mem_store i v c = (if i < mem_len then Some (c\<lparr>mem := (mem c)(i := v)\<rparr>) else None)"

definition writeImm :: "u32 \<Rightarrow> u32 \<Rightarrow> Cpu \<Rightarrow> (cpu_error option \<times> Cpu) option" where
  "writeImm a imm c =
     (if unat a > mem_len then Some (Some (IllegalWrite imm a), c)
      else do {
        c1 \<leftarrow> mem_store (unat a) (ucast imm) c;
        c2 \<leftarrow> mem_store (unat (a + 1)) (ucast (drop_bit 8 imm)) c1;
        c3 \<leftarrow> mem_store (unat (a + 2)) (ucast (drop_bit 16 imm)) c2;
        c4 \<leftarrow> mem_store (unat (a + 3)) (ucast (drop_bit 24 imm)) c3;
        Some (None, c4)
      })"

text \<open>bytes.Reader.Seek from the start fails only for a negative offset.\<close>

definition Seek :: "int \<Rightarrow> Cpu \<Rightarrow> cpu_error option \<times> Cpu" where
  "Seek off c = (if off < 0 then (Some NegativePosition, c) else (None, c\<lparr>pos := nat off\<rparr>))"

definition jump :: "u32 \<Rightarrow> Cpu \<Rightarrow> cpu_error option \<times> Cpu" where
  "jump t c =
     (case Seek (uint (t + word_of_nat (length Hdr))) c of
        (Some e, c') \<Rightarrow> (Some e, c')
      | (None, c') \<Rightarrow> (None, c'\<lparr>pc := t\<rparr>))"

subsection \<open>The handlers of the dispatch table\<close>

text \<open>Each handler returns the number of operand bytes it read, and the new state.
  The callers of \<^verbatim>\<open>jump\<close> drop the error it returns.\<close>

definition op_nop :: "Cpu \<Rightarrow> (nat \<times> Cpu) option" where
  "op_nop c = Some (0, c)"

definition op_ld :: "Cpu \<Rightarrow> (nat \<times> Cpu) option" where
  "op_ld c0 =
     (let (ins, c) = read 2 c0
      in if err c \<noteq> None then Some (0, c)
         else do {
           (a, c) \<leftarrow> readReg (ins ! 1) c;
           (i, e) \<leftarrow> readImm a c;
           c \<leftarrow> (if e \<noteq> None then writeReg (ins ! 0) i (c\<lparr>err := e\<rparr>)
                else Some (c\<lparr>err := e\<rparr>));
           Some (2, c)
         })"

definition op_lr :: "Cpu \<Rightarrow> (nat \<times> Cpu) option" where
  "op_lr c0 =
     (let (ins, c) = read 5 c0
      in if err c \<noteq> None then Some (0, c)
         else do {
           c \<leftarrow> writeReg (ins ! 4) (le32 (ins ! 0) (ins ! 1) (ins ! 2) (ins ! 3)) c;
           Some (5, c)
         })"

definition op_st :: "Cpu \<Rightarrow> (nat \<times> Cpu) option" where
  "op_st c0 =
     (let (ins, c) = read 2 c0
      in if err c \<noteq> None then Some (0, c)
         else do {
           (a, c) \<leftarrow> readReg (ins ! 0) c;
           (v, c) \<leftarrow> readReg (ins ! 1) c;
           (e, c) \<leftarrow> writeImm a v c;
           Some (2, c\<lparr>err := e\<rparr>)
         })"

definition op_add :: "Cpu \<Rightarrow> (nat \<times> Cpu) option" where
  "op_add c0 =
     (let (ins, c) = read 3 c0
      in if err c \<noteq> None then Some (0, c)
         else do {
           (a, c) \<leftarrow> readReg (ins ! 0) c;
           (b, c) \<leftarrow> readReg (ins ! 1) c;
           c \<leftarrow> writeReg (ins ! 2) (a + b) c;
           Some (3, c)
         })"

definition op_sub :: "Cpu \<Rightarrow> (nat \<times> Cpu) option" where
  "op_sub c0 =
     (let (ins, c) = read 3 c0
      in if err c \<noteq> None then Some (0, c)
         else do {
           (a, c) \<leftarrow> readReg (ins ! 0) c;
           (b, c) \<leftarrow> readReg (ins ! 1) c;
           c \<leftarrow> writeReg (ins ! 2) (a - b) c;
           Some (3, c)
         })"

definition op_addi :: "Cpu \<Rightarrow> (nat \<times> Cpu) option" where
  "op_addi c0 =
     (let (ins, c) = read 6 c0
      in if err c \<noteq> None then Some (0, c)
         else do {
           (a, c) \<leftarrow> readReg (ins ! 0) c;
           c \<leftarrow> writeReg (ins ! 5) (a + le32 (ins ! 1) (ins ! 2) (ins ! 3) (ins ! 4)) c;
           Some (6, c)
         })"

definition op_subi :: "Cpu \<Rightarrow> (nat \<times> Cpu) option" where
  "op_subi c0 =
     (let (ins, c) = read 6 c0
      in if err c \<noteq> None then Some (0, c)
         else do {
           (a, c) \<leftarrow> readReg (ins ! 0) c;
           c \<leftarrow> writeReg (ins ! 5) (a - le32 (ins ! 1) (ins ! 2) (ins ! 3) (ins ! 4)) c;
           Some (6, c)
         })"

text \<open>\<^verbatim>\<open>string(rune(v))\<close> of a 32-bit value: the code point \<open>v\<close> itself when it is a
  valid one, and U+FFFD otherwise, that is for a surrogate (d800 to dfff) and for
  a value above 10ffff (from \<open>2^31\<close> up the rune is negative).\<close>

definition rune_string :: "u32 \<Rightarrow> u32" where
  "rune_string v =
     (if 0x10FFFF < unat v \<or> (0xD800 \<le> unat v \<and> unat v \<le> 0xDFFF) then 0xFFFD else v)"

text \<open>\<^verbatim>\<open>p\<close> indexes the register file with no check.\<close>

definition op_p :: "Cpu \<Rightarrow> (nat \<times> Cpu) option" where
  "op_p c0 =
     (let (ins, c) = read 1 c0
      in if err c \<noteq> None then Some (0, c)
         else if unat (ins ! 0) < reg_len
              then Some (1, c\<lparr>out := out c @ [rune_string (reg c (unat (ins ! 0)))]\<rparr>)
              else None)"

text \<open>The four conditional branches differ in the comparison only.\<close>

definition op_branch :: "(u32 \<Rightarrow> u32 \<Rightarrow> bool) \<Rightarrow> Cpu \<Rightarrow> (nat \<times> Cpu) option" where
  "op_branch cmp c0 =
     (let (ins, c) = read 6 c0
      in if err c \<noteq> None then Some (0, c)
         else do {
           (a, c) \<leftarrow> readReg (ins ! 0) c;
           (b, c) \<leftarrow> readReg (ins ! 1) c;
           if cmp a b
           then Some (0, snd (jump (le32 (ins ! 2) (ins ! 3) (ins ! 4) (ins ! 5)) c))
           else Some (6, c)
         })"

definition op_j :: "Cpu \<Rightarrow> (nat \<times> Cpu) option" where
  "op_j c0 =
     (let (ins, c) = read 4 c0
      in if err c \<noteq> None then Some (0, c)
         else Some (0, snd (jump (le32 (ins ! 0) (ins ! 1) (ins ! 2) (ins ! 3)) c)))"

definition op_jr :: "Cpu \<Rightarrow> (nat \<times> Cpu) option" where
  "op_jr c0 =
     (let (ins, c) = read 1 c0
      in if err c \<noteq> None then Some (0, c)
         else do {
           (a, c) \<leftarrow> readReg (ins ! 0) c;
           Some (0, snd (jump a c))
         })"

definition op_call :: "Cpu \<Rightarrow> (nat \<times> Cpu) option" where
  "op_call c0 =
     (let (ins, c) = read 4 c0
      in if err c \<noteq> None then Some (0, c)
         else do {
           c \<leftarrow> writeReg 3 (pc c + 4) c;
           Some (0, snd (jump (le32 (ins ! 0) (ins ! 1) (ins ! 2) (ins ! 3)) c))
         })"

definition op_exit :: "Cpu \<Rightarrow> (nat \<times> Cpu) option" where
  "op_exit c = Some (0, c\<lparr>flags := flags c OR 1\<rparr>)"

definition ops :: "byte \<Rightarrow> (Cpu \<Rightarrow> (nat \<times> Cpu) option) option" where
  "ops op =
     (if op = OpNop then Some op_nop
      else if op = OpLd then Some op_ld
      else if op = OpLr then Some op_lr
      else if op = OpSt then Some op_st
      else if op = OpAdd then Some op_add
      else if op = OpSub then Some op_sub
      else if op = OpAddi then Some op_addi
      else if op = OpSubi then Some op_subi
      else if op = OpP then Some op_p
      else if op = OpBeq then Some (op_branch (\<lambda>a b. a = b))
      else if op = OpBne then Some (op_branch (\<lambda>a b. a \<noteq> b))
      else if op = OpBgt then Some (op_branch (\<lambda>a b. a > b))
      else if op = OpBlt then Some (op_branch (\<lambda>a b. a < b))
      else if op = OpJ then Some op_j
      else if op = OpJr then Some op_jr
      else if op = OpCall then Some op_call
      else if op = OpExit then Some op_exit
      else None)"

definition State :: "Cpu \<Rightarrow> bool" where
  "State c = (flags c \<noteq> 1)"

definition Step :: "Cpu \<Rightarrow> (cpu_error option \<times> Cpu) option" where
  "Step c0 =
     (let (opb, c) = read 1 c0
      in if err c \<noteq> None then Some (err c, c)
         else let c = c\<lparr>pc := pc c + 1\<rparr>
              in case ops (opb ! 0) of
                   None \<Rightarrow> Some (Some (InvalidOpcode (opb ! 0)), c\<lparr>pc := pc c - 1\<rparr>)
                 | Some f \<Rightarrow> do {
                     (n, c) \<leftarrow> f c;
                     let c = c\<lparr>pc := pc c + word_of_nat n\<rparr>;
                     Some (err c, c)
                   })"

text \<open>\<open>steps n c\<close>: \<open>n\<close> calls of \<^verbatim>\<open>Step\<close> in a row, each of which returns with no
  error; \<open>None\<close> when one of them panics or returns an error.\<close>

fun steps :: "nat \<Rightarrow> Cpu \<Rightarrow> Cpu option" where
  "steps 0 c = Some c"
| "steps (Suc n) c =
     (case Step c of
        Some (None, c') \<Rightarrow> steps n c'
      | _ \<Rightarrow> None)"

text \<open>The driver's view of a run: load the object, then \<open>n\<close> steps.\<close>

definition run_from :: "byte list \<Rightarrow> nat \<Rightarrow> Cpu option" where
  "run_from b n = (case New b of Inl e \<Rightarrow> None | Inr c \<Rightarrow> steps n c)"

text \<open>\<open>sync c k\<close>: the cursor is \<open>k\<close> bytes past where \<open>pc\<close> (plus the header) points,
  in 32-bit arithmetic. \<open>fetch_view\<close> gives both sides as integers.\<close>

definition sync :: "Cpu \<Rightarrow> u32 \<Rightarrow> bool" where
  "sync c k = (word_of_nat (pos c) = pc c + k + word_of_nat (length Hdr))"

definition fetch_view :: "Cpu \<Rightarrow> int \<times> int" where
  "fetch_view c = (uint (pc c), int (pos c) - int (length Hdr))"

text \<open>Object files used below, as the assembler lays them out after the header.
  \<open>ld_prog\<close>: \<^verbatim>\<open>lr $41 %1; st %0 %1; ld %2 %0\<close>.
  \<open>ld8_prog\<close>: \<^verbatim>\<open>lr $8 %0; ld %1 %0\<close>.
  \<open>reg8_prog\<close>: \<^verbatim>\<open>lr $41 %8\<close>. \<open>p9_prog\<close>: \<^verbatim>\<open>p %9\<close>.
  \<open>reg9_prog\<close>: \<^verbatim>\<open>lr $41 %9\<close>.
  \<open>st_prog\<close>: \<^verbatim>\<open>lr $1ffd %0; st %0 %1\<close>. \<open>ld_hi_prog\<close>: \<^verbatim>\<open>lr $1ffd %0; ld %1 %0\<close>.
  \<open>st_far_prog\<close>: \<^verbatim>\<open>lr $2001 %0; st %0 %1\<close>.
  \<open>wrap_prog\<close>: \<^verbatim>\<open>j $-1\<close>, a jump to ffffffff.
  \<open>print_prog\<close>: \<^verbatim>\<open>lr $41 %0; p %0; exit\<close>.
  \<open>call_prog\<close>: \<^verbatim>\<open>call f; exit; f: jr %3\<close>.\<close>

definition ld_prog :: "byte list" where
  "ld_prog = [0x48, 0x59, 0x50, 0x00, 0x02, 0x41, 0, 0, 0, 1, 0x03, 0, 1, 0x01, 2, 0]"

definition ld8_prog :: "byte list" where
  "ld8_prog = [0x48, 0x59, 0x50, 0x00, 0x02, 0x08, 0, 0, 0, 0, 0x01, 1, 0]"

definition reg8_prog :: "byte list" where
  "reg8_prog = [0x48, 0x59, 0x50, 0x00, 0x02, 0x41, 0, 0, 0, 8]"

definition p9_prog :: "byte list" where
  "p9_prog = [0x48, 0x59, 0x50, 0x00, 0x08, 9]"

definition reg9_prog :: "byte list" where
  "reg9_prog = [0x48, 0x59, 0x50, 0x00, 0x02, 0x41, 0, 0, 0, 9]"

definition ld_hi_prog :: "byte list" where
  "ld_hi_prog = [0x48, 0x59, 0x50, 0x00, 0x02, 0xfd, 0x1f, 0, 0, 0, 0x01, 1, 0]"

definition st_far_prog :: "byte list" where
  "st_far_prog = [0x48, 0x59, 0x50, 0x00, 0x02, 0x01, 0x20, 0, 0, 0, 0x03, 0, 1]"

definition st_prog :: "byte list" where
  "st_prog = [0x48, 0x59, 0x50, 0x00, 0x02, 0xfd, 0x1f, 0, 0, 0, 0x03, 0, 1]"

definition wrap_prog :: "byte list" where
  "wrap_prog = [0x48, 0x59, 0x50, 0x00, 0x0d, 0xff, 0xff, 0xff, 0xff]"

definition print_prog :: "byte list" where
  "print_prog = [0x48, 0x59, 0x50, 0x00, 0x02, 0x41, 0, 0, 0, 0, 0x08, 0, 0x10]"

definition call_prog :: "byte list" where
  "call_prog = [0x48, 0x59, 0x50, 0x00, 0x0f, 0x06, 0, 0, 0, 0x10, 0x0e, 0x03]"

section \<open>The assembler (package asm)\<close>

subsection \<open>Symbols, instructions, errors\<close>

text \<open>The symbol kinds are the constants \<^verbatim>\<open>Id, Label, Reg, Addr, Eof\<close> (0 to 4) and
  the value \<open>-1\<close> that \<^verbatim>\<open>Read\<close> gives a symbol it has not classified (\<open>Unset\<close>).
  The zero value \<^verbatim>\<open>Symbol{}\<close> has kind 0, which is \<^verbatim>\<open>Id\<close>.\<close>

datatype symtype = Unset | Id_sym | Label | Reg | Addr | Eof

record Symbol =
  Type :: symtype
  Val :: string
  Line :: nat

record Instruction =
  Op :: byte
  Params :: "symtype list"

datatype asm_error =
    BadArgumentCount
  | ExpectedIdentifier string
  | ExpectedRegister string
  | ExpectedImmediate string
  | RedefiningLabel string
  | BadRegister string
  | BadAddress string
  | NoSuchLabel string
  | InvalidCharacter char
  | BadInstruction string
  | InvalidFile
  | ErrorCount nat
  | ErrorCountShown nat nat
  | SinkFailure

definition ErrThreshold :: nat where
  "ErrThreshold = 8"

definition Symbol_zero :: Symbol where
  "Symbol_zero = \<lparr>Type = Id_sym, Val = [], Line = 0\<rparr>"

definition syms :: "char \<Rightarrow> symtype option" where
  "syms = map_of [(CHR ''%'', Reg), (CHR ''$'', Addr)]"

definition inst :: "string \<Rightarrow> Instruction option" where
  "inst = map_of
     [(''nop'', \<lparr>Op = OpNop, Params = []\<rparr>),
      (''ld'', \<lparr>Op = OpLd, Params = [Reg, Reg]\<rparr>),
      (''lr'', \<lparr>Op = OpLr, Params = [Addr, Reg]\<rparr>),
      (''st'', \<lparr>Op = OpSt, Params = [Reg, Reg]\<rparr>),
      (''add'', \<lparr>Op = OpAdd, Params = [Reg, Reg, Reg]\<rparr>),
      (''sub'', \<lparr>Op = OpSub, Params = [Reg, Reg, Reg]\<rparr>),
      (''addi'', \<lparr>Op = OpAddi, Params = [Reg, Addr, Reg]\<rparr>),
      (''subi'', \<lparr>Op = OpSubi, Params = [Reg, Addr, Reg]\<rparr>),
      (''p'', \<lparr>Op = OpP, Params = [Reg]\<rparr>),
      (''beq'', \<lparr>Op = OpBeq, Params = [Reg, Reg, Addr]\<rparr>),
      (''bne'', \<lparr>Op = OpBne, Params = [Reg, Reg, Addr]\<rparr>),
      (''bgt'', \<lparr>Op = OpBgt, Params = [Reg, Reg, Addr]\<rparr>),
      (''blt'', \<lparr>Op = OpBlt, Params = [Reg, Reg, Addr]\<rparr>),
      (''j'', \<lparr>Op = OpJ, Params = [Addr]\<rparr>),
      (''jr'', \<lparr>Op = OpJr, Params = [Reg]\<rparr>),
      (''call'', \<lparr>Op = OpCall, Params = [Addr]\<rparr>),
      (''exit'', \<lparr>Op = OpExit, Params = []\<rparr>)]"

subsection \<open>What the code uses of Go's library\<close>

text \<open>A source byte is a \<open>char\<close>; \<^verbatim>\<open>rune(c)\<close> of a byte is a code point below 256, so
  the unicode predicates are the ones of Latin-1.\<close>

definition newline :: char where
  "newline = CHR 0x0A"

definition IsSpace :: "char \<Rightarrow> bool" where
  "IsSpace c = (of_char c \<in> {9, 10, 11, 12, 13, 32, 133, 160 :: nat})"

definition IsGraphic :: "char \<Rightarrow> bool" where
  "IsGraphic c =
     (let n = of_char c :: nat
      in (32 \<le> n \<and> n \<le> 126) \<or> (160 \<le> n \<and> n \<noteq> 173))"

definition IsLetter :: "char \<Rightarrow> bool" where
  "IsLetter c =
     (let n = of_char c :: nat
      in (65 \<le> n \<and> n \<le> 90) \<or> (97 \<le> n \<and> n \<le> 122) \<or> n = 170 \<or> n = 181 \<or> n = 186
         \<or> (192 \<le> n \<and> n \<le> 214) \<or> (216 \<le> n \<and> n \<le> 246) \<or> 248 \<le> n)"

text \<open>strconv: a digit is 0-9 or a letter of either case; a number is a non-empty
  run of digits below the base, after an optional sign for \<^verbatim>\<open>ParseInt\<close>. The value is
  kept as a natural number and compared with the cutoff \<open>2 ^ (bits - 1)\<close>; a value
  that overflows Go's 64 bits is above every cutoff, so it is refused here as there.
  \<open>None\<close> is either of strconv's errors (syntax, range): the callers do not tell
  them apart.\<close>

definition digit_val :: "char \<Rightarrow> nat option" where
  "digit_val c =
     (let n = of_char c :: nat
      in if 48 \<le> n \<and> n \<le> 57 then Some (n - 48)
         else if 97 \<le> n \<and> n \<le> 122 then Some (n - 87)
         else if 65 \<le> n \<and> n \<le> 90 then Some (n - 55)
         else None)"

fun parse_digits :: "nat \<Rightarrow> nat \<Rightarrow> string \<Rightarrow> nat option" where
  "parse_digits base n [] = Some n"
| "parse_digits base n (c # cs) =
     (case digit_val c of
        None \<Rightarrow> None
      | Some d \<Rightarrow> if d \<ge> base then None else parse_digits base (n * base + d) cs)"

definition ParseUint :: "nat \<Rightarrow> string \<Rightarrow> nat option" where
  "ParseUint base s = (if s = [] then None else parse_digits base 0 s)"

definition ParseInt :: "nat \<Rightarrow> nat \<Rightarrow> string \<Rightarrow> int option" where
  "ParseInt base bits s =
     (case s of
        [] \<Rightarrow> None
      | c # cs \<Rightarrow>
          let neg = (c = CHR ''-'');
              s' = (if c = CHR ''+'' \<or> c = CHR ''-'' then cs else s);
              cutoff = 2 ^ (bits - 1)
          in case ParseUint base s' of
               None \<Rightarrow> None
             | Some un \<Rightarrow>
                 if neg then (if un > cutoff then None else Some (- int un))
                 else (if un \<ge> cutoff then None else Some (int un)))"

text \<open>\<^verbatim>\<open>Atoi\<close> is the decimal parse into Go's \<^verbatim>\<open>int\<close>, taken as 64 bits wide.\<close>

definition Atoi :: "string \<Rightarrow> int option" where
  "Atoi s = ParseInt 10 64 s"

text \<open>The formats of fmt: \<^verbatim>\<open>%d\<close> of a count or line number, \<^verbatim>\<open>%02x\<close> of a byte.\<close>

fun show_nat :: "nat \<Rightarrow> string" where
  "show_nat n =
     (if n < 10 then [''0123456789'' ! n]
      else show_nat (n div 10) @ [''0123456789'' ! (n mod 10)])"

definition hex2 :: "char \<Rightarrow> string" where
  "hex2 c = [''0123456789abcdef'' ! (of_char c div 16), ''0123456789abcdef'' ! (of_char c mod 16)]"

fun error_string :: "asm_error \<Rightarrow> string" where
  "error_string BadArgumentCount = ''bad argument count''"
| "error_string (ExpectedIdentifier v) = ''expected identifier got '' @ [CHR 0x27] @ v @ [CHR 0x27]"
| "error_string (ExpectedRegister v) = ''expected register got '' @ [CHR 0x27] @ v @ [CHR 0x27]"
| "error_string (ExpectedImmediate v) = ''expected immediate got '' @ [CHR 0x27] @ v @ [CHR 0x27]"
| "error_string (RedefiningLabel v) = ''redefining label '' @ [CHR 0x27] @ v @ [CHR 0x27]"
| "error_string (BadRegister v) = ''bad register '' @ [CHR 0x27] @ v @ [CHR 0x27]"
| "error_string (BadAddress v) = ''bad address '' @ [CHR 0x27] @ v @ [CHR 0x27]"
| "error_string (NoSuchLabel v) = v @ '': no such label''"
| "error_string (InvalidCharacter c) = ''invalid character '' @ [CHR 0x27] @ hex2 c @ [CHR 0x27]"
| "error_string (BadInstruction v) = ''bad instruction '' @ [CHR 0x27] @ v @ [CHR 0x27]"
| "error_string InvalidFile = ''invalid file''"
| "error_string (ErrorCount n) = show_nat n @ '' errors''"
| "error_string (ErrorCountShown n m) = show_nat n @ '' errors ('' @ show_nat m @ '' shown)''"
| "error_string SinkFailure = ''write failed''"

subsection \<open>The symbol reader\<close>

record Reader =
  sym :: "Symbol list"
  nsym :: nat

definition NewReader :: "Symbol list \<Rightarrow> Reader" where
  "NewReader s = \<lparr>sym = s, nsym = 0\<rparr>"

text \<open>\<open>nsym\<close> starts at 0 and only \<^verbatim>\<open>Read\<close> advances it, one step while it is below
  the length: it never passes the length.\<close>

definition Reader_Read :: "Reader \<Rightarrow> (Symbol \<times> asm_error option) \<times> Reader" where
  "Reader_Read s =
     (if nsym s = length (sym s) then ((Symbol_zero, Some BadArgumentCount), s)
      else ((sym s ! nsym s, None), s\<lparr>nsym := nsym s + 1\<rparr>))"

definition Reader_Expect :: "symtype \<Rightarrow> Reader \<Rightarrow> (Symbol \<times> asm_error option) \<times> Reader" where
  "Reader_Expect t s =
     (case Reader_Read s of
        ((sy, Some e), s') \<Rightarrow> ((sy, Some e), s')
      | ((sy, None), s') \<Rightarrow>
          if t = Id_sym
          then (if Type sy \<noteq> t \<and> Type sy \<noteq> Label
                then ((sy, Some (ExpectedIdentifier (Val sy))), s')
                else ((sy, None), s'))
          else (if Type sy \<noteq> t \<and> Type sy \<noteq> Id_sym
                then ((sy, Some (if t = Addr then ExpectedImmediate (Val sy)
                                 else ExpectedRegister (Val sy))), s')
                else ((sy, None), s')))"

subsection \<open>The writer\<close>

text \<open>\<open>w_buf\<close> and \<open>w_pc\<close> are the fields \<^verbatim>\<open>buf\<close> and \<^verbatim>\<open>pc\<close>. The map \<^verbatim>\<open>addr\<close> from
  patch offsets to label names is kept as an association list with one entry per
  key, since \<^verbatim>\<open>Write\<close> ranges over it. The sink \<^verbatim>\<open>f\<close> is passed to \<^verbatim>\<open>Write\<close>
  as its write function and its state.\<close>

record Writer =
  w_buf :: "byte list"
  w_pc :: u32
  lab :: "string \<rightharpoonup> u32"
  addr :: "(u32 \<times> string) list"

definition NewWriter :: Writer where
  "NewWriter = \<lparr>w_buf = [], w_pc = 0, lab = Map.empty, addr = []\<rparr>"

definition le_bytes :: "u32 \<Rightarrow> byte list" where
  "le_bytes a = [ucast a, ucast (drop_bit 8 a), ucast (drop_bit 16 a), ucast (drop_bit 24 a)]"

definition WriteAddr :: "u32 \<Rightarrow> Writer \<Rightarrow> Writer" where
  "WriteAddr a w = w\<lparr>w_buf := w_buf w @ le_bytes a, w_pc := w_pc w + 4\<rparr>"

definition WriteSymbol :: "Symbol \<Rightarrow> Writer \<Rightarrow> asm_error option \<times> Writer" where
  "WriteSymbol s w =
     (case Type s of
        Id_sym \<Rightarrow>
          (case inst (Val s) of
             Some f \<Rightarrow> (None, w\<lparr>w_buf := w_buf w @ [Op f], w_pc := w_pc w + 1\<rparr>)
           | None \<Rightarrow> (None, WriteAddr 0 (w\<lparr>addr := AList.update (w_pc w) (Val s) (addr w)\<rparr>)))
      | Label \<Rightarrow>
          (case lab w (Val s) of
             Some l \<Rightarrow> (Some (RedefiningLabel (Val s)), w)
           | None \<Rightarrow> (None, w\<lparr>lab := (lab w)(Val s \<mapsto> w_pc w)\<rparr>))
      | Reg \<Rightarrow>
          (case Atoi (Val s) of
             None \<Rightarrow> (Some (BadRegister (Val s)), w)
           | Some r \<Rightarrow> (None, w\<lparr>w_buf := w_buf w @ [word_of_int r], w_pc := w_pc w + 1\<rparr>))
      | Addr \<Rightarrow>
          (case ParseInt 16 32 (Val s) of
             None \<Rightarrow> (Some (BadAddress (Val s)), w)
           | Some a \<Rightarrow> (None, WriteAddr (word_of_int a) w))
      | Eof \<Rightarrow> (None, w)
      | Unset \<Rightarrow> (None, w))"

text \<open>\<^verbatim>\<open>Write\<close> patches the buffer in place, slot by slot, in the order the runtime
  ranges over the map (the list \<open>kvs\<close>: Go leaves the order open). A store outside
  the buffer panics (\<open>None\<close>); the offsets \<open>i+1\<close>, \<open>i+2\<close>, \<open>i+3\<close> are 32-bit sums.\<close>

definition store :: "nat \<Rightarrow> byte \<Rightarrow> byte list \<Rightarrow> byte list option" where
  "store k v b = (if k < length b then Some (b[k := v]) else None)"

fun patch :: "(string \<rightharpoonup> u32) \<Rightarrow> (u32 \<times> string) list \<Rightarrow> byte list
    \<Rightarrow> (asm_error + byte list) option" where
  "patch lb [] b = Some (Inr b)"
| "patch lb ((i, j) # kvs) b =
     (case lb j of
        None \<Rightarrow> Some (Inl (NoSuchLabel j))
      | Some l \<Rightarrow> do {
          b1 \<leftarrow> store (unat i) (ucast l) b;
          b2 \<leftarrow> store (unat (i + 1)) (ucast (drop_bit 8 l)) b1;
          b3 \<leftarrow> store (unat (i + 2)) (ucast (drop_bit 16 l)) b2;
          b4 \<leftarrow> store (unat (i + 3)) (ucast (drop_bit 24 l)) b3;
          patch lb kvs b4
        })"

text \<open>A sink is a write function on a sink state; it returns the error, if any.
  \<^verbatim>\<open>Write\<close> returns the error of the first failure and the state of the sink.
  \<open>file_sink\<close> appends what it is given; the writes of \<open>failing_sink\<close> fail with
  \<open>SinkFailure\<close>, which stands for the sink's own error, whatever its text.\<close>

definition Writer_Write ::
  "(u32 \<times> string) list \<Rightarrow> Writer \<Rightarrow> (byte list \<Rightarrow> 's \<Rightarrow> asm_error option \<times> 's) \<Rightarrow> 's
     \<Rightarrow> (asm_error option \<times> 's) option" where
  "Writer_Write kvs w wr s =
     (case patch (lab w) kvs (w_buf w) of
        None \<Rightarrow> None
      | Some (Inl e) \<Rightarrow> Some (Some e, s)
      | Some (Inr b) \<Rightarrow>
          (case wr Hdr s of
             (Some e, s') \<Rightarrow> Some (Some e, s')
           | (None, s') \<Rightarrow> Some (wr b s')))"

definition file_sink :: "byte list \<Rightarrow> byte list \<Rightarrow> asm_error option \<times> byte list" where
  "file_sink bs s = (None, s @ bs)"

definition failing_sink :: "byte list \<Rightarrow> byte list \<Rightarrow> asm_error option \<times> byte list" where
  "failing_sink bs s = (Some SinkFailure, s)"

subsection \<open>The lexer\<close>

text \<open>The bufio.Reader over a source that reads without failure is the list of the
  bytes not yet read; \<^verbatim>\<open>ReadByte\<close> fails at the end of it only. The line counter
  \<^verbatim>\<open>lc\<close> is a variable of the package: it is passed in and returned.\<close>

fun ReadToken :: "string \<Rightarrow> nat \<Rightarrow> string \<Rightarrow> string option \<times> nat \<times> string" where
  "ReadToken b lc [] = (None, lc, [])"
| "ReadToken b lc (c # r) =
     (let lc' = (if c = newline then lc + 1 else lc)
      in if IsSpace c then (Some b, lc', r) else ReadToken (b @ [c]) lc' r)"

text \<open>In \<^verbatim>\<open>Read\<close> the symbol is still unclassified whenever the loop comes round:
  every assignment to it is followed by a break or a return.\<close>

definition Symbol_unset :: Symbol where
  "Symbol_unset = \<lparr>Type = Unset, Val = [], Line = 0\<rparr>"

fun Read :: "nat \<Rightarrow> string \<Rightarrow> (Symbol \<times> asm_error option) \<times> nat \<times> string" where
  "Read lc [] = ((Symbol_unset\<lparr>Type := Eof\<rparr>, None), lc, [])"
| "Read lc (c # r) =
     (let lc1 = (if c = newline then lc + 1 else lc)
      in if c = CHR ''#''
         then ((Symbol_unset, None), lc1 + 1, drop 1 (dropWhile (\<lambda>x. x \<noteq> newline) r))
         else if IsSpace c then Read lc1 r
         else if \<not> IsGraphic c then ((Symbol_unset, Some (InvalidCharacter c)), lc1, r)
         else case syms c of
                Some t \<Rightarrow>
                  (case ReadToken [] lc1 r of
                     (None, lc2, r') \<Rightarrow> ((Symbol_unset\<lparr>Type := Eof\<rparr>, None), lc2, r')
                   | (Some s, lc2, r') \<Rightarrow> ((\<lparr>Type = t, Val = s, Line = lc2\<rparr>, None), lc2, r'))
              | None \<Rightarrow>
                  if IsLetter c
                  then (case ReadToken [] lc1 (c # r) of
                          (None, lc2, r') \<Rightarrow> ((Symbol_unset\<lparr>Type := Eof\<rparr>, None), lc2, r')
                        | (Some s, lc2, r') \<Rightarrow>
                            if s \<noteq> [] \<and> last s = CHR '':''
                            then ((\<lparr>Type = Label, Val = butlast s, Line = lc2\<rparr>, None),
                                  lc2 + 1, r')
                            else ((\<lparr>Type = Id_sym, Val = s, Line = lc2\<rparr>, None), lc2, r'))
                  else Read lc1 r)"

subsection \<open>Gen\<close>

text \<open>The closure \<^verbatim>\<open>werr\<close> works on the error count and on the diagnostics written
  to \<^verbatim>\<open>e\<close>, one string for each call of \<^verbatim>\<open>Fprintf\<close>.\<close>

definition werr :: "Symbol \<Rightarrow> asm_error \<Rightarrow> nat \<times> string list \<Rightarrow> nat \<times> string list" where
  "werr s e d =
     (case d of
        (errc, shown) \<Rightarrow>
          (errc + 1,
           if errc \<le> ErrThreshold
           then shown @ [show_nat (Line s) @ '': '' @ error_string e @ [newline]]
           else shown))"

text \<open>The first loop of \<^verbatim>\<open>Gen\<close>: the result is whether it returned \<^verbatim>\<open>invalid file\<close>,
  the symbols, the error count and diagnostics, the line counter. The loop ends:
  \<^verbatim>\<open>Read\<close> consumes at least one byte unless the input is at its end.\<close>

function lex_loop :: "Symbol list \<Rightarrow> nat \<times> string list \<Rightarrow> nat \<Rightarrow> string
    \<Rightarrow> bool \<times> Symbol list \<times> (nat \<times> string list) \<times> nat" where
  "lex_loop sy d lc r =
     (case Read lc r of
        ((s, e), lc', r') \<Rightarrow>
          let d' = (case e of Some x \<Rightarrow> werr s x d | None \<Rightarrow> d)
          in if fst d' > ErrThreshold then (True, sy, d', lc')
             else let sy' = (if Type s \<noteq> Unset then sy @ [s] else sy)
                  in if Type s = Eof then (False, sy', d', lc')
                     else lex_loop sy' d' lc' r')"
  by pat_completeness auto
termination
proof -
  have tok: "length r' \<le> length r" if "ReadToken b lc r = (t, lc', r')"
    for b lc r t lc' r'
    using that
    by (induction b lc r rule: ReadToken.induct) (auto simp: Let_def le_SucI split: if_splits)
  have len: "length r' \<le> length r - 1" if "Read lc r = (x, lc', r')" for lc r x lc' r'
    using that
  proof (induction lc r rule: Read.induct)
    case (1 lc)
    then show ?case by simp
  next
    case (2 lc c r)
    note ih = 2(1,2) [OF refl]
    define lc1 where "lc1 = (if c = newline then lc + 1 else lc)"
    have ih1: "length r' \<le> length r"
      if "c \<noteq> CHR ''#''" "IsSpace c" "Read lc1 r = (x, lc', r')"
      using ih(1) [OF that(1,2)] that(3) unfolding lc1_def by simp
    have ih2: "length r' \<le> length r"
      if "c \<noteq> CHR ''#''" "\<not> IsSpace c" "IsGraphic c" "syms c = None" "\<not> IsLetter c"
         "Read lc1 r = (x, lc', r')"
      using ih(2) that unfolding lc1_def by simp
    have t2: "length r2 \<le> length r" if "\<not> IsSpace c" "ReadToken [] l (c # r) = (t, l2, r2)"
      for l t l2 r2
      using that tok [of "[c]" _ r t l2 r2] by (simp add: Let_def)
    have d: "length (drop 1 (dropWhile (\<lambda>x. x \<noteq> newline) r)) \<le> length r"
      using length_dropWhile_le [of "\<lambda>x. x \<noteq> newline" r] by simp
    from 2(3) have rd: "(let lc1 = lc1
        in if c = CHR ''#''
           then ((Symbol_unset, None), lc1 + 1, drop 1 (dropWhile (\<lambda>x. x \<noteq> newline) r))
           else if IsSpace c then Read lc1 r
           else if \<not> IsGraphic c then ((Symbol_unset, Some (InvalidCharacter c)), lc1, r)
           else case syms c of
                  Some t \<Rightarrow>
                    (case ReadToken [] lc1 r of
                       (None, lc2, r') \<Rightarrow> ((Symbol_unset\<lparr>Type := Eof\<rparr>, None), lc2, r')
                     | (Some s, lc2, r') \<Rightarrow> ((\<lparr>Type = t, Val = s, Line = lc2\<rparr>, None), lc2, r'))
                | None \<Rightarrow>
                    if IsLetter c
                    then (case ReadToken [] lc1 (c # r) of
                            (None, lc2, r') \<Rightarrow> ((Symbol_unset\<lparr>Type := Eof\<rparr>, None), lc2, r')
                          | (Some s, lc2, r') \<Rightarrow>
                              if s \<noteq> [] \<and> last s = CHR '':''
                              then ((\<lparr>Type = Label, Val = butlast s, Line = lc2\<rparr>, None),
                                    lc2 + 1, r')
                              else ((\<lparr>Type = Id_sym, Val = s, Line = lc2\<rparr>, None), lc2, r'))
                    else Read lc1 r) = (x, lc', r')"
      unfolding lc1_def by (simp only: Read.simps)
    then have "length r' \<le> length r"
      using ih1 ih2 t2 d
      by (auto simp: Let_def split: if_splits option.splits prod.splits dest: tok)
    then show ?case by simp
  qed
  have dec: "length r' < length r" if "Read lc r = ((s, e), lc', r')" "Type s \<noteq> Eof"
    for lc r s e lc' r'
  proof -
    from that have "r \<noteq> []" by (cases r) (auto simp: Symbol_unset_def)
    with len [OF that(1)] show ?thesis by (cases r) auto
  qed
  show ?thesis
    by (relation "measure (\<lambda>(sy, d, lc, r). length r)") (auto dest: dec [OF sym])
qed


text \<open>The loop over the operand kinds of one instruction.\<close>

fun params :: "symtype list \<Rightarrow> Reader \<Rightarrow> Writer \<Rightarrow> nat \<times> string list
    \<Rightarrow> Reader \<times> Writer \<times> (nat \<times> string list)" where
  "params [] rd w d = (rd, w, d)"
| "params (t # ts) rd w d =
     (case Reader_Expect t rd of
        ((s, Some e), rd') \<Rightarrow> params ts rd' w (werr s e d)
      | ((s, None), rd') \<Rightarrow>
          (case WriteSymbol s w of
             (Some e, w') \<Rightarrow> params ts rd' w' (werr s e d)
           | (None, w') \<Rightarrow> params ts rd' w' d))"

text \<open>The second loop of \<^verbatim>\<open>Gen\<close>. It ends when \<^verbatim>\<open>Expect\<close> returns the end-of-file
  symbol; when the reader is exhausted before that, it does not end, and there is
  no result.\<close>

partial_function (option) asm_loop :: "Reader \<Rightarrow> Writer \<Rightarrow> nat \<times> string list
    \<Rightarrow> (Writer \<times> (nat \<times> string list)) option" where
  "asm_loop rd w d =
     (case Reader_Expect Id_sym rd of
        ((s, e), rd') \<Rightarrow>
          if Type s = Eof then Some (w, d)
          else (case e of
                  Some x \<Rightarrow> asm_loop rd' w (werr s x d)
                | None \<Rightarrow>
                    if Type s \<noteq> Label
                    then (case inst (Val s) of
                            None \<Rightarrow> asm_loop rd' w (werr s (BadInstruction (Val s)) d)
                          | Some f \<Rightarrow>
                              (case params (Params f) rd' (snd (WriteSymbol s w)) d of
                                 (rd'', w', d') \<Rightarrow> asm_loop rd'' w' d'))
                    else (case WriteSymbol s w of
                            (Some x, w') \<Rightarrow> asm_loop rd' w' (werr s x d)
                          | (None, w') \<Rightarrow> asm_loop rd' w' d)))"

text \<open>What \<^verbatim>\<open>Gen\<close> returns and leaves behind: the symbols and the error it returns,
  the sink \<^verbatim>\<open>w\<close>, the diagnostics written to \<^verbatim>\<open>e\<close>, and the line counter.
  \<open>order\<close> is the order in which the runtime ranges over the patch map. \<^verbatim>\<open>Gen\<close>
  has no result (\<open>None\<close>) when its second loop does not end or \<^verbatim>\<open>Write\<close> panics.\<close>

record 's Gen_result =
  r_sym :: "Symbol list"
  r_err :: "asm_error option"
  r_sink :: 's
  r_diag :: "string list"
  r_lc :: nat

definition Gen ::
  "((u32 \<times> string) list \<Rightarrow> (u32 \<times> string) list)
     \<Rightarrow> (byte list \<Rightarrow> 's \<Rightarrow> asm_error option \<times> 's) \<Rightarrow> 's \<Rightarrow> nat \<Rightarrow> string
     \<Rightarrow> 's Gen_result option" where
  "Gen order wr sink lc r =
     (case lex_loop [] (0, []) lc r of
        (True, sy, d, lc') \<Rightarrow>
          Some \<lparr>r_sym = sy, r_err = Some InvalidFile, r_sink = sink, r_diag = snd d,
                r_lc = lc'\<rparr>
      | (False, sy, d, lc') \<Rightarrow>
          (case asm_loop (NewReader sy) NewWriter d of
             None \<Rightarrow> None
           | Some (writer, (errc, diag)) \<Rightarrow>
               if errc > ErrThreshold
               then Some \<lparr>r_sym = sy, r_err = Some (ErrorCountShown errc ErrThreshold),
                          r_sink = sink, r_diag = diag, r_lc = lc'\<rparr>
               else if errc > 0
               then Some \<lparr>r_sym = sy, r_err = Some (ErrorCount errc),
                          r_sink = sink, r_diag = diag, r_lc = lc'\<rparr>
               else (case Writer_Write (order (addr writer)) writer wr sink of
                       None \<Rightarrow> None
                     | Some (Some x, sink') \<Rightarrow>
                         Some \<lparr>r_sym = sy, r_err = None, r_sink = sink',
                               r_diag = diag @ [error_string x @ [newline]], r_lc = lc'\<rparr>
                     | Some (None, sink') \<Rightarrow>
                         Some \<lparr>r_sym = sy, r_err = None, r_sink = sink',
                               r_diag = diag, r_lc = lc'\<rparr>)))"

subsection \<open>Definitions for the statements about the assembler\<close>

text \<open>What the caller of \<^verbatim>\<open>Gen\<close> observes: the error returned, the diagnostics, the
  sink.\<close>

definition Gen_view :: "'s Gen_result option \<Rightarrow> (asm_error option \<times> string list \<times> 's) option" where
  "Gen_view r = map_option (\<lambda>g. (r_err g, r_diag g, r_sink g)) r"

text \<open>One possible order of ranging over the patch map: the order of insertion.\<close>

definition insertion_order :: "(u32 \<times> string) list \<Rightarrow> (u32 \<times> string) list" where
  "insertion_order kvs = kvs"

text \<open>A line with an unknown mnemonic, and sources of eight and nine such lines.\<close>

definition bad_line :: string where
  "bad_line = ''a'' @ [newline]"

definition eight_bad :: string where
  "eight_bad = bad_line @ bad_line @ bad_line @ bad_line @ bad_line @ bad_line @ bad_line
     @ bad_line"

definition nine_bad :: string where
  "nine_bad = eight_bad @ bad_line"

text \<open>The value of a string of hexadecimal digits, by positional notation.\<close>

definition is_hex_digit :: "char \<Rightarrow> bool" where
  "is_hex_digit c = (c \<in> set ''0123456789abcdefABCDEF'')"

definition hex_value :: "string \<Rightarrow> nat" where
  "hex_value s = foldl (\<lambda>a c. 16 * a + (case digit_val c of Some d \<Rightarrow> d | None \<Rightarrow> 0)) 0 s"

text \<open>A source ends a token when it is empty or its last byte is white space.\<close>

definition ends_token :: "string \<Rightarrow> bool" where
  "ends_token r = (r = [] \<or> IsSpace (last r))"

text \<open>The calls of \<^verbatim>\<open>WriteSymbol\<close> that \<^verbatim>\<open>Gen\<close> makes on its writer, in a row; the
  error each returns is counted by \<^verbatim>\<open>Gen\<close> and does not change the writer.\<close>

definition write_all :: "Symbol list \<Rightarrow> Writer \<Rightarrow> Writer" where
  "write_all ss w = foldl (\<lambda>w s. snd (WriteSymbol s w)) w ss"

text \<open>The four stores of one patch, and the invariant of the writer: \<open>pc\<close> is the
  length of the buffer, and the patch slots lie in the buffer and do not overlap.\<close>

definition put32 :: "nat \<Rightarrow> u32 \<Rightarrow> byte list \<Rightarrow> byte list" where
  "put32 n l b = b[n := ucast l, n + 1 := ucast (drop_bit 8 l), n + 2 := ucast (drop_bit 16 l),
     n + 3 := ucast (drop_bit 24 l)]"

definition slots_ok :: "(u32 \<times> string) list \<Rightarrow> nat \<Rightarrow> bool" where
  "slots_ok kvs n =
     (distinct kvs \<and> n < 2 ^ 32 \<and> (\<forall>(i, nm)\<in>set kvs. unat i + 4 \<le> n) \<and>
      (\<forall>(i, nm)\<in>set kvs. \<forall>(j, nm')\<in>set kvs.
         (i, nm) = (j, nm') \<or> unat i + 4 \<le> unat j \<or> unat j + 4 \<le> unat i))"

definition winv :: "Writer \<Rightarrow> bool" where
  "winv w = (w_pc w = word_of_nat (length (w_buf w)) \<and> distinct (map fst (addr w)) \<and>
     slots_ok (addr w) (length (w_buf w)))"

text \<open>The symbols of \<^verbatim>\<open>call f; exit; f: jr %3\<close> that reach the writer.\<close>

definition call_syms :: "Symbol list" where
  "call_syms =
     [\<lparr>Type = Id_sym, Val = ''call'', Line = 0\<rparr>, \<lparr>Type = Id_sym, Val = ''f'', Line = 1\<rparr>,
      \<lparr>Type = Id_sym, Val = ''exit'', Line = 2\<rparr>, \<lparr>Type = Label, Val = ''f'', Line = 2\<rparr>,
      \<lparr>Type = Id_sym, Val = ''jr'', Line = 3\<rparr>, \<lparr>Type = Reg, Val = ''3'', Line = 4\<rparr>]"

text \<open>No error counted so far means nothing printed so far.\<close>

definition quiet :: "nat \<times> string list \<Rightarrow> bool" where
  "quiet d = (fst d = 0 \<longrightarrow> snd d = [])"

text \<open>The sources \<^verbatim>\<open>call f; exit; f: jr %3\<close> and \<^verbatim>\<open>j f\<close>, one statement a line, and
  the symbols of the second that reach the writer.\<close>

definition call_src :: string where
  "call_src = ''call f'' @ [newline] @ ''exit'' @ [newline] @ ''f: jr %3'' @ [newline]"

definition jf_src :: string where
  "jf_src = ''j f'' @ [newline]"

definition jf_syms :: "Symbol list" where
  "jf_syms = [\<lparr>Type = Id_sym, Val = ''j'', Line = 0\<rparr>, \<lparr>Type = Id_sym, Val = ''f'', Line = 1\<rparr>]"

text \<open>The two loops of \<^verbatim>\<open>Gen\<close> on a source: whether the first one gave up, and the
  writer, error count and diagnostics that the second one ends with.\<close>

definition Gen_loops :: "nat \<Rightarrow> string \<Rightarrow> (bool \<times> Writer \<times> nat \<times> string list) option" where
  "Gen_loops lc src =
     (case lex_loop [] (0, []) lc src of
        (ab, sy, d, lc') \<Rightarrow>
          map_option (\<lambda>y. (ab, y)) (asm_loop (NewReader sy) NewWriter d))"

section \<open>Properties of the virtual machine\<close>

lemmas op_consts = OpNop_def OpLd_def OpLr_def OpSt_def OpAdd_def OpSub_def OpAddi_def
  OpSubi_def OpP_def OpBeq_def OpBne_def OpBgt_def OpBlt_def OpJ_def OpJr_def OpCall_def
  OpExit_def

lemmas vm_defs = New_def read_def checkReg_def readReg_def writeReg_def readImm_def
  mem_store_def writeImm_def Seek_def jump_def op_nop_def op_ld_def op_lr_def op_st_def
  op_add_def op_sub_def op_addi_def op_subi_def op_p_def op_branch_def op_j_def op_jr_def
  op_call_def op_exit_def ops_def Step_def Hdr_def reg_len_def mem_len_def le32_def
  rune_string_def op_consts

subsection \<open>Loads\<close>

lemma readImm_zero:
  "readImm 0 c = Some (le32 (mem c 0) (mem c 1) (mem c 2) (mem c 3), None)"
  by (simp add: readImm_def mem_len_def upt_rec numeral_2_eq_2 numeral_3_eq_3)

lemma readImm_panics:
  assumes "1 \<le> unat a" "unat a \<le> mem_len"
  shows "readImm a c = None"
  using assms by (auto simp: readImm_def Let_def)

lemma op_ld_never_writes:
  assumes "op_ld c = Some (n, c')"
  shows "reg c' = reg c"
  using assms
  by (auto simp: op_ld_def read_def readReg_def writeReg_def checkReg_def Let_def
      split: if_splits prod.splits option.splits Option.bind_splits)

text \<open>
  C1 (fails on the code). After \<^verbatim>\<open>lr $41 %1; st %0 %1\<close> the four memory bytes at
  address 0 hold 41 00 00 00, and \<^verbatim>\<open>ld %2 %0\<close> then completes with no error, but
  register 2 still holds 0: the handler writes its destination only when the read
  has failed, and that write is then suppressed by the error it has just latched.
  At any other in-bounds address (here 8) the slice \<^verbatim>\<open>c.mem[addr:4]\<close> panics.
\<close>

theorem ld_leaves_register_unwritten:
  "map_option (\<lambda>c. (reg c 2, le32 (mem c 0) (mem c 1) (mem c 2) (mem c 3), err c))
       (run_from ld_prog (Suc (Suc (Suc 0)))) = Some (0, 0x41, None)
   \<and> map_option (\<lambda>c. reg c 0) (run_from ld8_prog (Suc 0)) = Some 8
   \<and> run_from ld8_prog (Suc (Suc 0)) = None"
  by (simp add: run_from_def ld_prog_def ld8_prog_def vm_defs)

subsection \<open>Register indices\<close>

lemma checkReg_eight: "checkReg 8 c = (err c, c)"
  by (simp add: checkReg_def reg_len_def)

lemma checkReg_above:
  assumes "8 < unat r"
  shows "checkReg r c = (Some (InvalidRegister r), c\<lparr>err := Some (InvalidRegister r), flags := flags c OR 1\<rparr>)"
  using assms by (simp add: checkReg_def reg_len_def)

text \<open>Where the check does fault: \<^verbatim>\<open>lr $41 %9\<close> returns \<^verbatim>\<open>invalid register 09\<close>
  with \<open>flags\<close> = 1.\<close>

lemma register_nine_faults:
  "New reg9_prog = Inr (the (run_from reg9_prog 0))
   \<and> map_option (\<lambda>r. (fst r, flags (snd r), reg (snd r) 1)) (Step (the (run_from reg9_prog 0)))
       = Some (Some (InvalidRegister 9), 1, 0)"
  by (simp add: run_from_def reg9_prog_def vm_defs)

text \<open>
  C2 (fails on the code). \<^verbatim>\<open>checkReg\<close> faults for \<open>r > 8\<close>, so index 8 passes the
  check and \<^verbatim>\<open>c.reg[8]\<close> is out of range: from the loaded state, with no error
  latched, the step of \<^verbatim>\<open>lr $41 %8\<close> panics: it returns nothing, neither an error nor
  a state. \<^verbatim>\<open>p\<close> checks nothing: the step of \<^verbatim>\<open>p %9\<close> panics as well.
\<close>

theorem register_eight_panics:
  "New reg8_prog = Inr (the (run_from reg8_prog 0))
   \<and> err (the (run_from reg8_prog 0)) = None
   \<and> Step (the (run_from reg8_prog 0)) = None
   \<and> New p9_prog = Inr (the (run_from p9_prog 0))
   \<and> err (the (run_from p9_prog 0)) = None
   \<and> Step (the (run_from p9_prog 0)) = None"
  by (simp add: run_from_def reg8_prog_def p9_prog_def vm_defs)

subsection \<open>Memory bounds\<close>

lemma writeImm_panics:
  assumes "mem_len - 3 \<le> unat a" "unat a \<le> mem_len"
  shows "writeImm a v c = None"
proof -
  from assms have "unat a + 3 < 2 ^ 32" by (simp add: mem_len_def)
  then have "unat (a + 3) = unat a + 3" by (simp add: unat_word_ariths)
  with assms show ?thesis
    by (simp add: writeImm_def mem_store_def mem_len_def split: Option.bind_split)
qed

text \<open>Where the guard does fail the access: the step of a store at 8193 returns
  \<^verbatim>\<open>illegal write\<close>.\<close>

lemma store_at_8193_fails:
  "map_option (\<lambda>c. (reg c 0, err c)) (run_from st_far_prog (Suc 0)) = Some (8193, None)
   \<and> map_option fst (Step (the (run_from st_far_prog (Suc 0)))) = Some (Some (IllegalWrite 0 8193))"
  by (simp add: run_from_def st_far_prog_def vm_defs)

text \<open>
  C3 (fails on the code). The guard of \<^verbatim>\<open>writeImm\<close> and \<^verbatim>\<open>readImm\<close> is
  \<open>addr > 8192\<close>. After \<^verbatim>\<open>lr $1ffd %0\<close> register 0 holds 8189 and no error is
  latched; the step of \<^verbatim>\<open>st %0 %1\<close> then passes the guard and panics on
  \<^verbatim>\<open>c.mem[8192]\<close>, and the step of \<^verbatim>\<open>ld %1 %0\<close> panics on the slice: each returns
  nothing, neither an \<^verbatim>\<open>illegal write\<close> or \<^verbatim>\<open>illegal read\<close> error nor a state.
\<close>

theorem store_at_8189_panics:
  "map_option (\<lambda>c. (reg c 0, err c)) (run_from st_prog (Suc 0)) = Some (8189, None)
   \<and> Step (the (run_from st_prog (Suc 0))) = None
   \<and> map_option (\<lambda>c. (reg c 0, err c)) (run_from ld_hi_prog (Suc 0)) = Some (8189, None)
   \<and> Step (the (run_from ld_hi_prog (Suc 0))) = None"
  by (simp add: run_from_def st_prog_def ld_hi_prog_def vm_defs)

subsection \<open>The program counter and the cursor\<close>

lemma read_frame:
  "read n c = (bs, c') \<Longrightarrow>
     err c' \<noteq> None \<or> (pos c' = pos c + n \<and> pc c' = pc c \<and> buf c' = buf c)"
  by (auto simp: read_def split: if_splits)

lemma checkReg_frame:
  "checkReg r c = (e, c') \<Longrightarrow> pos c' = pos c \<and> pc c' = pc c \<and> buf c' = buf c"
  by (auto simp: checkReg_def Let_def split: if_splits)

lemma readReg_frame:
  "readReg r c = Some (v, c') \<Longrightarrow> pos c' = pos c \<and> pc c' = pc c \<and> buf c' = buf c"
  by (auto simp: readReg_def dest!: checkReg_frame split: prod.splits option.splits if_splits)

lemma writeReg_frame:
  "writeReg r v c = Some c' \<Longrightarrow> pos c' = pos c \<and> pc c' = pc c \<and> buf c' = buf c"
  by (auto simp: writeReg_def dest!: checkReg_frame split: prod.splits option.splits if_splits)

lemma writeImm_frame:
  "writeImm a v c = Some (e, c') \<Longrightarrow> pos c' = pos c \<and> pc c' = pc c \<and> buf c' = buf c"
  by (auto simp: writeImm_def mem_store_def split: if_splits Option.bind_splits)

lemma jump_sync: "sync (snd (jump t c)) 0 \<and> buf (snd (jump t c)) = buf c"
  by (simp add: jump_def Seek_def sync_def)

lemma jump_never_fails: "fst (jump t c) = None"
  by (simp add: jump_def Seek_def)

lemma op_nop_sync:
  "op_nop c = Some (n, c') \<Longrightarrow> sync c 0 \<Longrightarrow> sync c' (word_of_nat n) \<and> buf c' = buf c"
  by (auto simp: op_nop_def)

lemma op_exit_sync:
  "op_exit c = Some (n, c') \<Longrightarrow> sync c 0 \<Longrightarrow> sync c' (word_of_nat n) \<and> buf c' = buf c"
  by (auto simp: op_exit_def sync_def)

lemma op_ld_sync:
  "op_ld c = Some (n, c') \<Longrightarrow> err c' = None \<Longrightarrow> sync c 0 \<Longrightarrow>
     sync c' (word_of_nat n) \<and> buf c' = buf c"
  by (auto simp: op_ld_def sync_def split: prod.splits Option.bind_splits if_splits
      dest!: read_frame readReg_frame writeReg_frame)

lemma op_lr_sync:
  "op_lr c = Some (n, c') \<Longrightarrow> err c' = None \<Longrightarrow> sync c 0 \<Longrightarrow>
     sync c' (word_of_nat n) \<and> buf c' = buf c"
  by (auto simp: op_lr_def sync_def split: prod.splits Option.bind_splits if_splits
      dest!: read_frame readReg_frame writeReg_frame)

lemma op_st_sync:
  "op_st c = Some (n, c') \<Longrightarrow> err c' = None \<Longrightarrow> sync c 0 \<Longrightarrow>
     sync c' (word_of_nat n) \<and> buf c' = buf c"
  by (auto simp: op_st_def sync_def split: prod.splits Option.bind_splits if_splits
      dest!: read_frame readReg_frame writeImm_frame)

lemma op_add_sync:
  "op_add c = Some (n, c') \<Longrightarrow> err c' = None \<Longrightarrow> sync c 0 \<Longrightarrow>
     sync c' (word_of_nat n) \<and> buf c' = buf c"
  by (auto simp: op_add_def sync_def split: prod.splits Option.bind_splits if_splits
      dest!: read_frame readReg_frame writeReg_frame)

lemma op_sub_sync:
  "op_sub c = Some (n, c') \<Longrightarrow> err c' = None \<Longrightarrow> sync c 0 \<Longrightarrow>
     sync c' (word_of_nat n) \<and> buf c' = buf c"
  by (auto simp: op_sub_def sync_def split: prod.splits Option.bind_splits if_splits
      dest!: read_frame readReg_frame writeReg_frame)

lemma op_addi_sync:
  "op_addi c = Some (n, c') \<Longrightarrow> err c' = None \<Longrightarrow> sync c 0 \<Longrightarrow>
     sync c' (word_of_nat n) \<and> buf c' = buf c"
  by (auto simp: op_addi_def sync_def split: prod.splits Option.bind_splits if_splits
      dest!: read_frame readReg_frame writeReg_frame)

lemma op_subi_sync:
  "op_subi c = Some (n, c') \<Longrightarrow> err c' = None \<Longrightarrow> sync c 0 \<Longrightarrow>
     sync c' (word_of_nat n) \<and> buf c' = buf c"
  by (auto simp: op_subi_def sync_def split: prod.splits Option.bind_splits if_splits
      dest!: read_frame readReg_frame writeReg_frame)

lemma op_p_sync:
  "op_p c = Some (n, c') \<Longrightarrow> err c' = None \<Longrightarrow> sync c 0 \<Longrightarrow>
     sync c' (word_of_nat n) \<and> buf c' = buf c"
  by (auto simp: op_p_def sync_def split: prod.splits if_splits dest!: read_frame)

lemma op_branch_sync:
  "op_branch f c = Some (n, c') \<Longrightarrow> err c' = None \<Longrightarrow> sync c 0 \<Longrightarrow>
     sync c' (word_of_nat n) \<and> buf c' = buf c"
  by (auto simp: op_branch_def jump_sync split: prod.splits Option.bind_splits if_splits
      dest!: read_frame readReg_frame) (simp_all add: sync_def)

lemma op_j_sync:
  "op_j c = Some (n, c') \<Longrightarrow> err c' = None \<Longrightarrow> sync c 0 \<Longrightarrow>
     sync c' (word_of_nat n) \<and> buf c' = buf c"
  by (auto simp: op_j_def jump_sync split: prod.splits if_splits dest!: read_frame)

lemma op_jr_sync:
  "op_jr c = Some (n, c') \<Longrightarrow> err c' = None \<Longrightarrow> sync c 0 \<Longrightarrow>
     sync c' (word_of_nat n) \<and> buf c' = buf c"
  by (auto simp: op_jr_def jump_sync split: prod.splits Option.bind_splits if_splits
      dest!: read_frame readReg_frame)

lemma op_call_sync:
  "op_call c = Some (n, c') \<Longrightarrow> err c' = None \<Longrightarrow> sync c 0 \<Longrightarrow>
     sync c' (word_of_nat n) \<and> buf c' = buf c"
  by (auto simp: op_call_def jump_sync split: prod.splits Option.bind_splits if_splits
      dest!: read_frame writeReg_frame)

lemmas handler_syncs = op_nop_sync op_exit_sync op_ld_sync op_lr_sync op_st_sync op_add_sync
  op_sub_sync op_addi_sync op_subi_sync op_p_sync op_branch_sync op_j_sync op_jr_sync
  op_call_sync

lemma ops_sync:
  "ops b = Some f \<Longrightarrow> f c = Some (n, c') \<Longrightarrow> err c' = None \<Longrightarrow> sync c 0 \<Longrightarrow>
     sync c' (word_of_nat n) \<and> buf c' = buf c"
  unfolding ops_def by (auto split: if_splits dest: handler_syncs)

lemma Step_sync:
  assumes "Step c = Some (None, c')" "sync c 0"
  shows "sync c' 0 \<and> buf c' = buf c"
proof -
  obtain opb c1 where r: "read 1 c = (opb, c1)" by (cases "read 1 c")
  from assms(1) r have e1: "err c1 = None"
    by (auto simp: Step_def split: if_splits)
  with r have f1: "pos c1 = pos c + 1" "pc c1 = pc c" "buf c1 = buf c"
    by (auto dest: read_frame)
  let ?c2 = "c1\<lparr>pc := pc c1 + 1\<rparr>"
  from f1 assms(2) have s2: "sync ?c2 0" by (simp add: sync_def)
  from assms(1) r e1 obtain f n c3 where
    o: "ops (opb ! 0) = Some f" and h: "f ?c2 = Some (n, c3)" and
    c': "c' = c3\<lparr>pc := pc c3 + word_of_nat n\<rparr>" and e3: "err c3 = None"
    by (auto simp: Step_def Let_def split: option.splits Option.bind_splits)
  from ops_sync[OF o h e3 s2] f1 c' show ?thesis by (simp add: sync_def)
qed

lemma steps_sync: "steps n c = Some c' \<Longrightarrow> sync c 0 \<Longrightarrow> sync c' 0 \<and> buf c' = buf c"
proof (induction n arbitrary: c)
  case 0
  then show ?case by simp
next
  case (Suc n)
  then obtain c1 where s: "Step c = Some (None, c1)" and r: "steps n c1 = Some c'"
    by (auto split: option.splits prod.splits)
  from Step_sync[OF s Suc.prems(2)] Suc.IH[OF r] show ?case by simp
qed

lemma Step_fetch: "Step c = Some (None, c') \<Longrightarrow> pos c < length (buf c) \<and> err c = None"
  by (auto simp: Step_def read_def Let_def split: if_splits prod.splits)

lemma New_sync: "New b = Inr c \<Longrightarrow> buf c = b \<and> pos c = min 4 (length b) \<and> pc c = 0"
  by (auto simp: New_def Let_def Hdr_def split: if_splits)


lemma steps_fetch: "steps n c = Some c' \<Longrightarrow> length (buf c) \<le> pos c \<Longrightarrow> c' = c"
  by (cases n) (auto dest: Step_fetch split: option.splits prod.splits)

lemma word_sync_exact:
  fixes p :: u32
  assumes "word_of_nat n = p + 4" "n < 2 ^ 32" "p < 0xfffffffc"
  shows "int n - 4 = uint p"
proof -
  from assms(3) have "unat p < 4294967292" by (simp add: word_less_nat_alt)
  then have "unat (p + 4) = unat p + 4" by (simp add: unat_word_ariths)
  moreover from assms(2) have "unat (word_of_nat n :: u32) = n" by (simp add: unat_of_nat take_bit_nat_eq_self)
  ultimately have "n = unat p + 4" using assms(1) by simp
  then show ?thesis by simp
qed

text \<open>
  C4 (as stated, with the positions read as integers, it fails after a jump
  whose target plus 4 wraps). What holds: at the start of every fetch of a
  step that completes without error, in a run of error-free steps from \<^verbatim>\<open>New\<close>, the
  cursor equals \<open>pc\<close> plus the header length as 32-bit values; and the two are
  equal as integers whenever \<open>pc\<close> is below fffffffc and the object is shorter than
  \<open>2^32\<close> bytes. Fall-through steps advance both by one plus the handler's count,
  taken transfers set both in \<^verbatim>\<open>jump\<close>.
\<close>

theorem pc_cursor_sync:
  assumes "New b = Inr c0" "steps n c0 = Some c" "Step c = Some (None, c')"
  shows "word_of_nat (pos c) = pc c + word_of_nat (length Hdr) \<and>
         (length b < 2 ^ 32 \<and> pc c < 0xfffffffc \<longrightarrow> int (pos c) - int (length Hdr) = uint (pc c))"
proof -
  from New_sync[OF assms(1)] have n0: "buf c0 = b" "pos c0 = min 4 (length b)" "pc c0 = 0"
    by simp_all
  have long: "4 \<le> length b"
  proof (rule ccontr)
    assume "\<not> 4 \<le> length b"
    with n0 have "length (buf c0) \<le> pos c0" by simp
    from steps_fetch[OF assms(2) this] Step_fetch[OF assms(3)] this show False by simp
  qed
  with n0 have "sync c0 0" by (simp add: sync_def Hdr_def)
  from steps_sync[OF assms(2) this] n0 have s: "sync c 0" and bc: "buf c = b" by simp_all
  from s have w: "word_of_nat (pos c) = pc c + 4" by (simp add: sync_def Hdr_def)
  from Step_fetch[OF assms(3)] bc have "pos c < length b" by simp
  with w word_sync_exact[of "pos c" "pc c"] show ?thesis by (auto simp: Hdr_def)
qed

text \<open>
  The object \<^verbatim>\<open>j $-1\<close>: the jump completes without error and leaves \<open>pc\<close> at
  ffffffff with the cursor at 3 (\<open>pc + 4\<close> wraps), so at the next fetch the cursor
  minus the header length is \<open>-1\<close>, not \<open>pc\<close>. That fetch reads the header's last
  byte, 0, as a \<^verbatim>\<open>nop\<close> and completes without error too.
\<close>

theorem jump_wraps_cursor:
  "map_option fetch_view (run_from wrap_prog (Suc 0)) = Some (4294967295, -1)
   \<and> map_option fetch_view (run_from wrap_prog (Suc (Suc 0))) = Some (0, 0)"
  by (simp add: run_from_def fetch_view_def wrap_prog_def vm_defs)

theorem pc_cursor_sync_witness:
  "New print_prog = Inr (the (run_from print_prog 0))
   \<and> steps (Suc 0) (the (run_from print_prog 0)) = Some (the (run_from print_prog (Suc 0)))
   \<and> Step (the (run_from print_prog (Suc 0)))
       = Some (None, the (run_from print_prog (Suc (Suc 0))))
   \<and> length print_prog < 2 ^ 32
   \<and> pc (the (run_from print_prog (Suc 0))) < 0xfffffffc
   \<and> fetch_view (the (run_from print_prog (Suc 0))) = (6, 6)"
  using pc_cursor_sync [of print_prog "the (run_from print_prog 0)" "Suc 0"
      "the (run_from print_prog (Suc 0))" "the (run_from print_prog (Suc (Suc 0)))"]
  by (simp add: run_from_def fetch_view_def print_prog_def vm_defs)

subsection \<open>Call and return\<close>

lemma ops_call: "ops OpCall = Some op_call"
  by (simp add: ops_def op_consts)

lemma ops_jr: "ops OpJr = Some op_jr"
  by (simp add: ops_def op_consts)

lemma readReg3: "err c = None \<Longrightarrow> readReg 3 c = Some (reg c 3, c)"
  by (simp add: readReg_def checkReg_def reg_len_def)

lemma writeReg3: "err c = None \<Longrightarrow> writeReg 3 v c = Some (c\<lparr>reg := (reg c)(3 := v)\<rparr>)"
  by (simp add: writeReg_def checkReg_def reg_len_def)

lemma read_ok:
  "pos c + n \<le> length (buf c) \<Longrightarrow>
     read n c = (take n (drop (pos c) (buf c)), c\<lparr>pos := pos c + n\<rparr>)"
  by (simp add: read_def)

lemma Step_call:
  assumes "err c = None" "pos c + 5 \<le> length (buf c)" "buf c ! pos c = OpCall"
  shows "\<exists>c1. Step c = Some (None, c1) \<and> reg c1 3 = pc c + 5"
proof -
  from assms(2) have r1: "read 1 c = (take 1 (drop (pos c) (buf c)), c\<lparr>pos := pos c + 1\<rparr>)"
    by (intro read_ok) simp
  from assms(2) have o: "take 1 (drop (pos c) (buf c)) ! 0 = buf c ! pos c"
    by simp
  let ?c1 = "c\<lparr>pos := pos c + 1, pc := pc c + 1\<rparr>"
  from assms(2) have r4: "read 4 ?c1 = (take 4 (drop (pos c + 1) (buf c)), ?c1\<lparr>pos := pos c + 1 + 4\<rparr>)"
    using read_ok[of ?c1 4] by simp
  from assms(1) r4 have "\<exists>c2. op_call ?c1 = Some (0, c2) \<and> reg c2 3 = pc c + 5 \<and> err c2 = None"
    by (simp add: op_call_def writeReg3 jump_def Seek_def)
  then obtain c2 where "op_call ?c1 = Some (0, c2)" "reg c2 3 = pc c + 5" "err c2 = None"
    by blast
  with assms(1,3) r1 o show ?thesis
    by (simp add: Step_def ops_call)
qed

lemma Step_jr3:
  assumes "err c = None" "pos c + 2 \<le> length (buf c)" "buf c ! pos c = OpJr"
    "buf c ! (pos c + 1) = 3"
  shows "\<exists>c1. Step c = Some (None, c1) \<and> pc c1 = reg c 3 \<and> pos c1 = unat (reg c 3 + 4)"
proof -
  from assms(2) have r1: "read 1 c = (take 1 (drop (pos c) (buf c)), c\<lparr>pos := pos c + 1\<rparr>)"
    by (intro read_ok) simp
  from assms(2) have o: "take 1 (drop (pos c) (buf c)) ! 0 = buf c ! pos c"
    by simp
  let ?c1 = "c\<lparr>pos := pos c + 1, pc := pc c + 1\<rparr>"
  from assms(2) have r2: "read 1 ?c1 = (take 1 (drop (pos c + 1) (buf c)), ?c1\<lparr>pos := pos c + 1 + 1\<rparr>)"
    using read_ok[of ?c1 1] by simp
  from assms(2) have o2: "take 1 (drop (pos c + 1) (buf c)) ! 0 = buf c ! (pos c + 1)"
    by simp
  from assms(1,4) r2 o2 have "\<exists>c2. op_jr ?c1 = Some (0, c2) \<and> pc c2 = reg c 3 \<and>
      pos c2 = unat (reg c 3 + 4) \<and> err c2 = None"
    by (simp add: op_jr_def readReg3 jump_def Seek_def Hdr_def)
  then obtain c2 where "op_jr ?c1 = Some (0, c2)" "pc c2 = reg c 3"
    "pos c2 = unat (reg c 3 + 4)" "err c2 = None"
    by blast
  with assms(1,3) r1 o show ?thesis
    by (simp add: Step_def ops_jr)
qed

text \<open>
  C8. A \<^verbatim>\<open>call\<close> fetched at code offset \<open>pc c\<close> completes without error and leaves
  \<open>pc c + 5\<close> in register 3. From any later state whose register 3 still holds that
  value, \<^verbatim>\<open>jr 3\<close> completes without error with \<open>pc = pc c + 5\<close> and the cursor in
  step with it; when the cursor was in step with \<open>pc\<close> at the call (and the object is
  shorter than \<open>2^32\<close>), the cursor is exactly five bytes past the call's opcode.
\<close>

theorem call_then_jr3:
  assumes "err c = None" "pos c + 5 \<le> length (buf c)" "buf c ! pos c = OpCall"
  shows "\<exists>c1. Step c = Some (None, c1) \<and> reg c1 3 = pc c + 5 \<and>
     (\<forall>c2. err c2 = None \<and> reg c2 3 = reg c1 3 \<and> pos c2 + 2 \<le> length (buf c2) \<and>
           buf c2 ! pos c2 = OpJr \<and> buf c2 ! (pos c2 + 1) = 3 \<longrightarrow>
        (\<exists>c3. Step c2 = Some (None, c3) \<and> pc c3 = pc c + 5 \<and>
           word_of_nat (pos c3) = pc c3 + word_of_nat (length Hdr) \<and>
           (int (pos c) = uint (pc c) + int (length Hdr) \<and> length (buf c) < 2 ^ 32 \<longrightarrow>
              pos c3 = pos c + 5)))"
proof -
  from Step_call[OF assms] obtain c1 where
    c1: "Step c = Some (None, c1)" "reg c1 3 = pc c + 5" by blast
  have "\<exists>c3. Step c2 = Some (None, c3) \<and> pc c3 = pc c + 5 \<and>
           word_of_nat (pos c3) = pc c3 + word_of_nat (length Hdr) \<and>
           (int (pos c) = uint (pc c) + int (length Hdr) \<and> length (buf c) < 2 ^ 32 \<longrightarrow>
              pos c3 = pos c + 5)"
    if h: "err c2 = None" "reg c2 3 = reg c1 3" "pos c2 + 2 \<le> length (buf c2)"
          "buf c2 ! pos c2 = OpJr" "buf c2 ! (pos c2 + 1) = 3" for c2
  proof -
    from Step_jr3[OF h(1,3,4,5)] h(2) c1(2) obtain c3 where
      c3: "Step c2 = Some (None, c3)" "pc c3 = pc c + 5" "pos c3 = unat (pc c + 5 + 4)"
      by auto
    have "pos c3 = pos c + 5"
      if e: "int (pos c) = uint (pc c) + int (length Hdr)" "length (buf c) < 2 ^ 32"
    proof -
      from e(1) have "int (pos c) = int (unat (pc c) + 4)" by (simp add: Hdr_def)
      then have "pos c = unat (pc c) + 4" by (simp only: of_nat_eq_iff)
      moreover from this assms(2) e(2) have "unat (pc c) + 9 < 2 ^ 32" by simp
      then have "unat (pc c + 9) = unat (pc c) + 9" by (simp add: unat_word_ariths)
      ultimately show ?thesis using c3(3) by (simp add: add.assoc)
    qed
    with c3 show ?thesis by (auto simp: Hdr_def)
  qed
  with c1 show ?thesis by blast
qed

theorem call_then_jr3_witness:
  "err (the (run_from call_prog 0)) = None
   \<and> pos (the (run_from call_prog 0)) + 5 \<le> length (buf (the (run_from call_prog 0)))
   \<and> buf (the (run_from call_prog 0)) ! pos (the (run_from call_prog 0)) = OpCall
   \<and> map_option (\<lambda>c. reg c 3) (run_from call_prog (Suc 0)) = Some 5
   \<and> map_option fetch_view (run_from call_prog (Suc 0)) = Some (6, 6)
   \<and> map_option fetch_view (run_from call_prog (Suc (Suc 0))) = Some (5, 5)"
  using call_then_jr3 [of "the (run_from call_prog 0)"]
  by (simp add: run_from_def fetch_view_def call_prog_def vm_defs)

section \<open>Properties of the assembler\<close>

lemmas asm_defs = Gen_def lex_loop.simps asm_loop.simps NewReader_def NewWriter_def
  Reader_Expect_def Reader_Read_def WriteSymbol_def WriteAddr_def Writer_Write_def
  werr_def ErrThreshold_def Symbol_unset_def Symbol_zero_def syms_def inst_def
  IsSpace_def IsGraphic_def IsLetter_def newline_def Atoi_def ParseInt_def ParseUint_def
  digit_val_def le_bytes_def store_def Hdr_def file_sink_def failing_sink_def hex2_def
  op_consts Let_def

subsection \<open>The symbol reader stays in range\<close>

lemma Reader_Read_in_range:
  assumes "nsym s \<le> length (sym s)"
  shows "nsym (snd (Reader_Read s)) \<le> length (sym (snd (Reader_Read s)))"
    and "sym (snd (Reader_Read s)) = sym s"
  using assms by (auto simp: Reader_Read_def)

lemma Reader_Expect_in_range:
  assumes "nsym s \<le> length (sym s)"
  shows "nsym (snd (Reader_Expect t s)) \<le> length (sym (snd (Reader_Expect t s)))"
    and "sym (snd (Reader_Expect t s)) = sym s"
  using assms
  by (auto simp: Reader_Expect_def Reader_Read_def split: prod.splits option.splits)

subsection \<open>The error budget\<close>

lemma werr_shown:
  "errc \<le> ErrThreshold \<Longrightarrow>
     werr s e (errc, shown) = (errc + 1, shown @ [show_nat (Line s) @ '': '' @ error_string e @ [newline]])"
  by (simp add: werr_def)

lemma eight_errors_eight_diagnostics:
  "map_option (\<lambda>g. (r_err g, length (r_diag g), r_sink g))
       (Gen insertion_order file_sink [] 0 eight_bad)
     = Some (Some (ErrorCount 8), 8, [])
   \<and> error_string (ErrorCount 8) = ''8 errors''"
  by (simp add: eight_bad_def bad_line_def insertion_order_def asm_defs)

text \<open>
  C5 (fails on the code). A source of nine lines with an unknown mnemonic has nine
  errors. \<^verbatim>\<open>werr\<close> prints while \<open>errc \<le> 8\<close> holds before the increment, so all nine
  diagnostics reach the error sink, the ninth being \<^verbatim>\<open>9: bad instruction 'a'\<close>; the
  summary returned is still \<^verbatim>\<open>9 errors (8 shown)\<close>.
\<close>

theorem nine_errors_nine_diagnostics:
  "map_option (\<lambda>g. (r_err g, length (r_diag g), r_diag g ! 8, r_sink g))
       (Gen insertion_order file_sink [] 0 nine_bad)
     = Some (Some (ErrorCountShown 9 8), 9,
             ''9: bad instruction '' @ [CHR 0x27] @ ''a'' @ [CHR 0x27, newline], [])
   \<and> error_string (ErrorCountShown 9 8) = ''9 errors (8 shown)''"
  by (simp add: nine_bad_def eight_bad_def bad_line_def insertion_order_def asm_defs)


subsection \<open>Address literals\<close>

lemma is_hex_digit_val: "is_hex_digit c \<Longrightarrow> \<exists>d. digit_val c = Some d \<and> d < 16"
  by (auto simp: is_hex_digit_def digit_val_def)

lemma is_hex_digit_not_sign: "is_hex_digit c \<Longrightarrow> c \<noteq> CHR ''+'' \<and> c \<noteq> CHR ''-''"
  by (auto simp: is_hex_digit_def)

lemma parse_digits_hex:
  "\<forall>c\<in>set s. is_hex_digit c \<Longrightarrow>
     parse_digits 16 a s
       = Some (foldl (\<lambda>a c. 16 * a + (case digit_val c of Some d \<Rightarrow> d | None \<Rightarrow> 0)) a s)"
proof (induction s arbitrary: a)
  case Nil
  then show ?case by simp
next
  case (Cons c s)
  from Cons.prems is_hex_digit_val [of c] obtain d where d: "digit_val c = Some d" "d < 16"
    by auto
  with Cons show ?case by (simp add: mult.commute)
qed

text \<open>
  C6 (as stated it fails: the literal ffffffff is refused). What holds: an address
  literal made of hexadecimal digits is accepted exactly when its value is below
  \<open>2^31\<close>, and is then emitted as the four bytes of that value, least significant
  first; from 80000000 up \<^verbatim>\<open>WriteSymbol\<close> returns \<^verbatim>\<open>bad address\<close> and writes nothing.
  (\<^verbatim>\<open>strconv.ParseInt(s, 16, 32)\<close> parses a signed 32-bit number.)
\<close>

theorem address_literal_range:
  assumes "s \<noteq> []" "\<forall>c\<in>set s. is_hex_digit c"
  shows "WriteSymbol \<lparr>Type = Addr, Val = s, Line = n\<rparr> w =
     (if hex_value s < 2 ^ 31
      then (None, w\<lparr>w_buf := w_buf w @ le_bytes (word_of_nat (hex_value s)), w_pc := w_pc w + 4\<rparr>)
      else (Some (BadAddress s), w))"
proof -
  from assms obtain c cs where s: "s = c # cs" by (cases s) auto
  with assms(2) is_hex_digit_not_sign [of c] have ns: "c \<noteq> CHR ''+''" "c \<noteq> CHR ''-''"
    by auto
  from parse_digits_hex [OF assms(2), of 0] have "ParseUint 16 s = Some (hex_value s)"
    using assms(1) by (simp add: ParseUint_def hex_value_def)
  with s ns have "ParseInt 16 32 s =
      (if hex_value s < 2 ^ 31 then Some (int (hex_value s)) else None)"
    by (auto simp: ParseInt_def Let_def)
  then show ?thesis
    by (simp add: WriteSymbol_def WriteAddr_def)
qed

theorem address_literal_range_witness:
  "''7fffffff'' \<noteq> [] \<and> list_all is_hex_digit ''7fffffff'' \<and> hex_value ''7fffffff'' < 2 ^ 31
   \<and> WriteSymbol \<lparr>Type = Addr, Val = ''7fffffff'', Line = 1\<rparr> NewWriter
       = (None, NewWriter\<lparr>w_buf := [0xff, 0xff, 0xff, 0x7f], w_pc := 4\<rparr>)"
  using address_literal_range [of "''7fffffff''" 1 NewWriter]
  by (simp add: is_hex_digit_def hex_value_def digit_val_def le_bytes_def NewWriter_def)

text \<open>
  The literal \<^verbatim>\<open>$ffffffff\<close>: \<^verbatim>\<open>WriteSymbol\<close> returns \<^verbatim>\<open>bad address 'ffffffff'\<close> and
  leaves the writer as it was; \<^verbatim>\<open>Gen\<close> on \<^verbatim>\<open>j $ffffffff\<close> reports the diagnostic,
  returns \<^verbatim>\<open>1 errors\<close> and emits nothing.
\<close>

theorem ffffffff_rejected:
  "WriteSymbol \<lparr>Type = Addr, Val = ''ffffffff'', Line = 1\<rparr> NewWriter
     = (Some (BadAddress ''ffffffff''), NewWriter)
   \<and> Gen_view (Gen insertion_order file_sink [] 0 (''j $ffffffff'' @ [newline]))
     = Some (Some (ErrorCount 1),
             [''1: bad address '' @ [CHR 0x27] @ ''ffffffff'' @ [CHR 0x27, newline]], [])"
  by (simp add: Gen_view_def insertion_order_def asm_defs)


subsection \<open>Label references\<close>

lemma length_put32 [simp]: "length (put32 n l b) = length b"
  by (simp add: put32_def)

lemma put32_other: "p < n \<or> n + 4 \<le> p \<Longrightarrow> put32 n l b ! p = b ! p"
  by (auto simp: put32_def)

lemma put32_slot: "n + 4 \<le> length b \<Longrightarrow> take 4 (drop n (put32 n l b)) = le_bytes l"
  by (simp add: put32_def le_bytes_def list_eq_iff_nth_eq nth_list_update less_Suc_eq
      numeral_eq_Suc)

lemma slot_eq:
  assumes "n + 4 \<le> length b" "length b' = length b" "\<forall>p. n \<le> p \<and> p < n + 4 \<longrightarrow> b' ! p = b ! p"
  shows "take 4 (drop n b') = take 4 (drop n b)"
  using assms by (simp add: list_eq_iff_nth_eq)

lemma unat_slot:
  fixes i :: u32
  assumes "unat i + 4 \<le> n" "n < 2 ^ 32"
  shows "unat (i + 1) = unat i + 1" "unat (i + 2) = unat i + 2" "unat (i + 3) = unat i + 3"
  using assms by (simp_all add: unat_word_ariths)

lemma patch_step:
  assumes "unat i + 4 \<le> length b" "length b < 2 ^ 32" "lb j = Some l"
  shows "patch lb ((i, j) # kvs) b = patch lb kvs (put32 (unat i) l b)"
  using assms unat_slot [OF assms(1,2)]
  by (simp add: store_def put32_def)

lemma slots_ok_Cons: "slots_ok (kv # kvs) n \<Longrightarrow> slots_ok kvs n"
  by (auto simp: slots_ok_def)

lemma patch_total:
  assumes "slots_ok kvs (length b)" "\<forall>(i, nm)\<in>set kvs. lb nm \<noteq> None"
  shows "\<exists>b'. patch lb kvs b = Some (Inr b') \<and> length b' = length b \<and>
     (\<forall>p. (\<forall>(i, nm)\<in>set kvs. p < unat i \<or> unat i + 4 \<le> p) \<longrightarrow> b' ! p = b ! p)"
  using assms
proof (induction kvs arbitrary: b)
  case Nil
  then show ?case by simp
next
  case (Cons kv kvs)
  obtain i j where kv: "kv = (i, j)" by (cases kv)
  from Cons.prems(2) kv obtain l where l: "lb j = Some l" by auto
  from Cons.prems(1) kv have ib: "unat i + 4 \<le> length b" "length b < 2 ^ 32"
    by (auto simp: slots_ok_def)
  from Cons.prems(1) have "slots_ok kvs (length (put32 (unat i) l b))"
    by (auto dest: slots_ok_Cons)
  with Cons.IH [of "put32 (unat i) l b"] Cons.prems(2) obtain b' where
    b': "patch lb kvs (put32 (unat i) l b) = Some (Inr b')" "length b' = length b"
      "\<forall>p. (\<forall>(i, nm)\<in>set kvs. p < unat i \<or> unat i + 4 \<le> p) \<longrightarrow> b' ! p = put32 (unat i) l b ! p"
    by auto
  from b'(3) have "\<forall>p. (\<forall>(i, nm)\<in>set (kv # kvs). p < unat i \<or> unat i + 4 \<le> p) \<longrightarrow> b' ! p = b ! p"
    using kv by (auto simp: put32_other)
  with b'(1,2) patch_step [where lb = lb, OF ib l] kv show ?case by simp
qed

lemma patch_slot:
  assumes "slots_ok kvs (length b)" "\<forall>(i, nm)\<in>set kvs. lb nm \<noteq> None"
    "patch lb kvs b = Some (Inr b')" "(i, nm) \<in> set kvs" "lb nm = Some k"
  shows "take 4 (drop (unat i) b') = le_bytes k"
  using assms
proof (induction kvs arbitrary: b)
  case Nil
  then show ?case by simp
next
  case (Cons kv kvs)
  obtain i0 j0 where kv: "kv = (i0, j0)" by (cases kv)
  from Cons.prems(2) kv obtain l where l: "lb j0 = Some l" by auto
  from Cons.prems(1) kv have ib: "unat i0 + 4 \<le> length b" "length b < 2 ^ 32"
    by (auto simp: slots_ok_def)
  let ?b1 = "put32 (unat i0) l b"
  from Cons.prems(1) have ok: "slots_ok kvs (length ?b1)"
    by (auto dest: slots_ok_Cons)
  from Cons.prems(3) patch_step [where lb = lb, OF ib l] kv have p: "patch lb kvs ?b1 = Some (Inr b')"
    by simp
  show ?case
  proof (cases "(i, nm) \<in> set kvs")
    case True
    from Cons.IH [OF ok _ p True Cons.prems(5)] Cons.prems(2) show ?thesis by auto
  next
    case False
    with Cons.prems(4) kv have e: "i = i0" "nm = j0" by auto
    with l Cons.prems(5) have lk: "l = k" by simp
    from patch_total [OF ok, of lb] Cons.prems(2) p have
      len: "length b' = length ?b1" and
      fr: "\<forall>p. (\<forall>(i, nm)\<in>set kvs. p < unat i \<or> unat i + 4 \<le> p) \<longrightarrow> b' ! p = ?b1 ! p"
      by auto
    have "b' ! p = ?b1 ! p" if "unat i0 \<le> p \<and> p < unat i0 + 4" for p
    proof -
      have "p < unat a \<or> unat a + 4 \<le> p" if "(a, c) \<in> set kvs" for a c
      proof -
        from Cons.prems(1) kv that have "(a, c) \<noteq> (i0, j0)" by (auto simp: slots_ok_def)
        with Cons.prems(1) kv that have "unat a + 4 \<le> unat i0 \<or> unat i0 + 4 \<le> unat a"
          by (fastforce simp: slots_ok_def)
        with \<open>unat i0 \<le> p \<and> p < unat i0 + 4\<close> show ?thesis by auto
      qed
      with fr show ?thesis by auto
    qed
    with slot_eq [of "unat i0" ?b1 b'] ib len
    have "take 4 (drop (unat i0) b') = take 4 (drop (unat i0) ?b1)" by simp
    with put32_slot [of "unat i0" b l] ib e lk show ?thesis by simp
  qed
qed

lemma patch_fail:
  assumes "slots_ok kvs (length b)" "\<exists>(i, nm)\<in>set kvs. lb nm = None"
  shows "\<exists>i nm. (i, nm) \<in> set kvs \<and> lb nm = None \<and> patch lb kvs b = Some (Inl (NoSuchLabel nm))"
  using assms
proof (induction kvs arbitrary: b)
  case Nil
  then show ?case by simp
next
  case (Cons kv kvs)
  obtain i j where kv: "kv = (i, j)" by (cases kv)
  show ?case
  proof (cases "lb j")
    case None
    with kv show ?thesis by auto
  next
    case (Some l)
    from Cons.prems(1) kv have ib: "unat i + 4 \<le> length b" "length b < 2 ^ 32"
      by (auto simp: slots_ok_def)
    from Cons.prems(1) have ok: "slots_ok kvs (length (put32 (unat i) l b))"
      by (auto dest: slots_ok_Cons)
    from Cons.prems(2) kv Some have "\<exists>(i, nm)\<in>set kvs. lb nm = None" by auto
    from Cons.IH [OF ok this] patch_step [where lb = lb, OF ib Some] kv show ?thesis by auto
  qed
qed

lemma update_fresh: "k \<notin> fst ` set al \<Longrightarrow> AList.update k v al = al @ [(k, v)]"
  by (induction al) auto

lemma write_all_Nil [simp]: "write_all [] w = w"
  by (simp add: write_all_def)

lemma write_all_Cons [simp]: "write_all (s # ss) w = write_all ss (snd (WriteSymbol s w))"
  by (simp add: write_all_def)

lemma write_all_append: "write_all (a @ b) w = write_all b (write_all a w)"
  by (simp add: write_all_def)

text \<open>One call of \<open>WriteSymbol\<close>: the buffer grows at its end, and either the patch
  list is unchanged or the symbol is a label reference recorded at the old \<open>pc\<close>.\<close>

lemma WriteSymbol_shape:
  obtains ext where
    "w_buf (snd (WriteSymbol s w)) = w_buf w @ ext"
    "w_pc (snd (WriteSymbol s w)) = w_pc w + word_of_nat (length ext)"
    "addr (snd (WriteSymbol s w)) = addr w \<or>
       (Type s = Id_sym \<and> inst (Val s) = None \<and> length ext = 4 \<and>
        addr (snd (WriteSymbol s w)) = AList.update (w_pc w) (Val s) (addr w))"
proof -
  have "\<exists>ext. w_buf (snd (WriteSymbol s w)) = w_buf w @ ext \<and>
    w_pc (snd (WriteSymbol s w)) = w_pc w + word_of_nat (length ext) \<and>
    (addr (snd (WriteSymbol s w)) = addr w \<or>
       (Type s = Id_sym \<and> inst (Val s) = None \<and> length ext = 4 \<and>
        addr (snd (WriteSymbol s w)) = AList.update (w_pc w) (Val s) (addr w)))"
    by (cases "Type s")
      (auto simp: WriteSymbol_def WriteAddr_def le_bytes_def split: option.splits)
  then show ?thesis using that by blast
qed

lemma WriteSymbol_length: "length (w_buf w) \<le> length (w_buf (snd (WriteSymbol s w)))"
  by (rule WriteSymbol_shape [of s w]) simp

lemma write_all_length: "length (w_buf w) \<le> length (w_buf (write_all ss w))"
proof (induction ss arbitrary: w)
  case Nil
  then show ?case by simp
next
  case (Cons s ss)
  from WriteSymbol_length [of w s] Cons [of "snd (WriteSymbol s w)"] show ?case by simp
qed

lemma slots_ok_grow: "slots_ok kvs n \<Longrightarrow> n \<le> m \<Longrightarrow> m < 2 ^ 32 \<Longrightarrow> slots_ok kvs m"
  by (fastforce simp: slots_ok_def)

lemma winv_fresh:
  assumes "winv w"
  shows "w_pc w \<notin> fst ` set (addr w)" "unat (w_pc w) = length (w_buf w)"
proof -
  from assms have lt: "length (w_buf w) < 2 ^ 32" and pc: "w_pc w = word_of_nat (length (w_buf w))"
    by (auto simp: winv_def slots_ok_def)
  then show u: "unat (w_pc w) = length (w_buf w)"
    by (simp add: unat_of_nat take_bit_nat_eq_self)
  from assms have "\<forall>(i, nm)\<in>set (addr w). unat i + 4 \<le> length (w_buf w)"
    by (auto simp: winv_def slots_ok_def)
  with u show "w_pc w \<notin> fst ` set (addr w)" by fastforce
qed

lemma winv_step:
  assumes "winv w" "length (w_buf (snd (WriteSymbol s w))) < 2 ^ 32"
  shows "winv (snd (WriteSymbol s w)) \<and> set (addr w) \<subseteq> set (addr (snd (WriteSymbol s w)))"
proof -
  let ?w' = "snd (WriteSymbol s w)"
  obtain ext where b: "w_buf ?w' = w_buf w @ ext"
    and p: "w_pc ?w' = w_pc w + word_of_nat (length ext)"
    and a: "addr ?w' = addr w \<or>
       (Type s = Id_sym \<and> inst (Val s) = None \<and> length ext = 4 \<and>
        addr ?w' = AList.update (w_pc w) (Val s) (addr w))"
    by (rule WriteSymbol_shape [of s w])
  from assms(1) have pc: "w_pc w = word_of_nat (length (w_buf w))" by (simp add: winv_def)
  with b p have pc': "w_pc ?w' = word_of_nat (length (w_buf ?w'))" by simp
  from assms(1) have ok: "slots_ok (addr w) (length (w_buf w))" "distinct (map fst (addr w))"
    by (simp_all add: winv_def)
  from b have le: "length (w_buf w) \<le> length (w_buf ?w')" by simp
  from a show ?thesis
  proof
    assume "addr ?w' = addr w"
    with pc' ok slots_ok_grow [OF ok(1) le assms(2)] show ?thesis by (simp add: winv_def)
  next
    assume r: "Type s = Id_sym \<and> inst (Val s) = None \<and> length ext = 4 \<and>
        addr ?w' = AList.update (w_pc w) (Val s) (addr w)"
    from winv_fresh [OF assms(1)] have fr: "w_pc w \<notin> fst ` set (addr w)"
      and u: "unat (w_pc w) = length (w_buf w)" by simp_all
    from r update_fresh [OF fr] have a': "addr ?w' = addr w @ [(w_pc w, Val s)]" by simp
    from r b have l': "length (w_buf ?w') = length (w_buf w) + 4" by simp
    from ok(2) fr a' have d: "distinct (map fst (addr ?w'))" by simp
    from ok(1) have old: "\<forall>(i, nm)\<in>set (addr w). unat i + 4 \<le> length (w_buf w)"
      by (auto simp: slots_ok_def)
    have "slots_ok (addr ?w') (length (w_buf ?w'))"
      unfolding slots_ok_def
    proof (intro conjI)
      from d show "distinct (addr ?w')" by (rule distinct_map [THEN iffD1, THEN conjunct1])
      from assms(2) show "length (w_buf ?w') < 2 ^ 32" .
      from old u a' l' show "\<forall>(i, nm)\<in>set (addr ?w'). unat i + 4 \<le> length (w_buf ?w')"
        by fastforce
      from ok(1) have pw: "\<forall>(i, nm)\<in>set (addr w). \<forall>(j, nm')\<in>set (addr w).
         (i, nm) = (j, nm') \<or> unat i + 4 \<le> unat j \<or> unat j + 4 \<le> unat i"
        by (simp add: slots_ok_def)
      have pair: "(i, nm) = (j, nm') \<or> unat i + 4 \<le> unat j \<or> unat j + 4 \<le> unat i"
        if m: "(i, nm) \<in> set (addr ?w')" "(j, nm') \<in> set (addr ?w')" for i nm j nm'
      proof -
        from m a' have ci: "(i, nm) \<in> set (addr w) \<or> (i, nm) = (w_pc w, Val s)"
          and cj: "(j, nm') \<in> set (addr w) \<or> (j, nm') = (w_pc w, Val s)" by auto
        from ci cj show ?thesis
        proof (elim disjE)
          assume "(i, nm) \<in> set (addr w)" "(j, nm') \<in> set (addr w)"
          with pw show ?thesis by fastforce
        next
          assume "(i, nm) \<in> set (addr w)" "(j, nm') = (w_pc w, Val s)"
          with old u show ?thesis by fastforce
        next
          assume "(i, nm) = (w_pc w, Val s)" "(j, nm') \<in> set (addr w)"
          with old u show ?thesis by fastforce
        next
          assume "(i, nm) = (w_pc w, Val s)" "(j, nm') = (w_pc w, Val s)"
          then show ?thesis by simp
        qed
      qed
      then show "\<forall>(i, nm)\<in>set (addr ?w'). \<forall>(j, nm')\<in>set (addr ?w').
         (i, nm) = (j, nm') \<or> unat i + 4 \<le> unat j \<or> unat j + 4 \<le> unat i"
        by blast
    qed
    with pc' d a' show ?thesis by (auto simp: winv_def)
  qed
qed

lemma winv_write_all:
  assumes "winv w" "length (w_buf (write_all ss w)) < 2 ^ 32"
  shows "winv (write_all ss w) \<and> set (addr w) \<subseteq> set (addr (write_all ss w))"
  using assms
proof (induction ss arbitrary: w)
  case Nil
  then show ?case by simp
next
  case (Cons s ss)
  let ?w' = "snd (WriteSymbol s w)"
  from write_all_length [of ?w' ss] Cons.prems(2) have "length (w_buf ?w') < 2 ^ 32" by simp
  from winv_step [OF Cons.prems(1) this] Cons.IH [of ?w'] Cons.prems(2) show ?case by auto
qed

lemma winv_New: "winv NewWriter"
  by (simp add: winv_def NewWriter_def slots_ok_def)

lemma lab_step: "lab w L = Some k \<Longrightarrow> lab (snd (WriteSymbol s w)) L = Some k"
  by (cases "Type s") (auto simp: WriteSymbol_def WriteAddr_def split: option.splits)

lemma lab_write_all: "lab w L = Some k \<Longrightarrow> lab (write_all ss w) L = Some k"
  by (induction ss arbitrary: w) (auto dest: lab_step)

lemma lab_other:
  "\<not> (Type s = Label \<and> Val s = L) \<Longrightarrow> lab (snd (WriteSymbol s w)) L = lab w L"
  by (cases "Type s") (auto simp: WriteSymbol_def WriteAddr_def split: option.splits)

lemma lab_write_all_other:
  "\<forall>s\<in>set ss. \<not> (Type s = Label \<and> Val s = L) \<Longrightarrow> lab (write_all ss w) L = lab w L"
  by (induction ss arbitrary: w) (auto simp: lab_other)

lemma lab_define:
  "lab w L = None \<Longrightarrow> lab (snd (WriteSymbol \<lparr>Type = Label, Val = L, Line = m\<rparr> w)) L = Some (w_pc w)"
  by (simp add: WriteSymbol_def)

text \<open>The writer that \<^verbatim>\<open>Gen\<close> hands to \<^verbatim>\<open>Write\<close> is the new writer after a row of
  calls of \<^verbatim>\<open>WriteSymbol\<close>.\<close>

lemma params_writes: "\<exists>ss. fst (snd (params ts rd w d)) = write_all ss w"
proof (induction ts arbitrary: rd w d)
  case Nil
  have "w = write_all [] w" by simp
  then show ?case by (simp del: write_all_Nil) blast
next
  case (Cons t ts)
  obtain s e rd' where x: "Reader_Expect t rd = ((s, e), rd')" by (metis prod.exhaust)
  show ?case
  proof (cases e)
    case (Some a)
    with x Cons [of rd' w "werr s a d"] show ?thesis by simp
  next
    case None
    obtain e' w' where ws: "WriteSymbol s w = (e', w')" by (cases "WriteSymbol s w")
    define d' where "d' = (case e' of Some y \<Rightarrow> werr s y d | None \<Rightarrow> d)"
    from Cons [of rd' w' d'] obtain ss where
      ss: "fst (snd (params ts rd' w' d')) = write_all ss w'" by blast
    from ws have "write_all (s # ss) w = write_all ss w'" by simp
    with ss x None ws have "fst (snd (params (t # ts) rd w d)) = write_all (s # ss) w"
      by (cases e') (simp_all add: d'_def)
    then show ?thesis by blast
  qed
qed


lemma asm_loop_writes:
  assumes "asm_loop rd w d = Some y"
  shows "\<exists>ss. fst y = write_all ss w"
proof (rule asm_loop.raw_induct [where P = "\<lambda>rd w d y. \<exists>ss. fst y = write_all ss w", OF _ assms])
  fix loop :: "Reader \<Rightarrow> Writer \<Rightarrow> nat \<times> string list \<Rightarrow> (Writer \<times> nat \<times> string list) option"
    and rd w d y
  assume ih: "\<And>rd w d y. loop rd w d = Some y \<Longrightarrow> \<exists>ss. fst y = write_all ss w"
    and body: "(case Reader_Expect Id_sym rd of
      ((s, e), rd') \<Rightarrow>
        if Type s = Eof then Some (w, d)
        else case e of
             None \<Rightarrow>
               if Type s \<noteq> Label
               then case inst (Val s) of
                    None \<Rightarrow> loop rd' w (werr s (BadInstruction (Val s)) d)
                    | Some f \<Rightarrow>
                        case params (Params f) rd' (snd (WriteSymbol s w)) d of
                        (rd'', w', d') \<Rightarrow> loop rd'' w' d'
               else case WriteSymbol s w of (None, w') \<Rightarrow> loop rd' w' d
                    | (Some x, w') \<Rightarrow> loop rd' w' (werr s x d)
             | Some x \<Rightarrow> loop rd' w (werr s x d)) = Some y"
  obtain s e rd' where x: "Reader_Expect Id_sym rd = ((s, e), rd')" by (metis prod.exhaust)
  have nil: "w = write_all [] w" by simp
  show "\<exists>ss. fst y = write_all ss w"
  proof (cases "Type s = Eof")
    case True
    with body x have "fst y = w" by auto
    with nil show ?thesis by metis
  next
    case ne: False
    show ?thesis
    proof (cases e)
      case (Some a)
      with body x ne have "loop rd' w (werr s a d) = Some y" by simp
      from ih [OF this] show ?thesis .
    next
      case None
      show ?thesis
      proof (cases "Type s = Label")
        case True
        obtain e' w' where ws: "WriteSymbol s w = (e', w')" by (cases "WriteSymbol s w")
        with body x ne None True obtain d' where "loop rd' w' d' = Some y"
          by (cases e') auto
        from ih [OF this] obtain ss where "fst y = write_all ss w'" by blast
        with ws have "fst y = write_all (s # ss) w" by simp
        then show ?thesis by blast
      next
        case nl: False
        show ?thesis
        proof (cases "inst (Val s)")
          case None': None
          with body x ne None nl
          have "loop rd' w (werr s (BadInstruction (Val s)) d) = Some y" by simp
          from ih [OF this] show ?thesis .
        next
          case (Some f)
          let ?w1 = "snd (WriteSymbol s w)"
          obtain rd'' w' d' where p: "params (Params f) rd' ?w1 d = (rd'', w', d')"
            by (metis prod.exhaust)
          from params_writes [of "Params f" rd' ?w1 d] p obtain ss1 where
            s1: "w' = write_all ss1 ?w1" by auto
          from body x ne None nl Some p have "loop rd'' w' d' = Some y" by simp
          from ih [OF this] obtain ss2 where "fst y = write_all ss2 w'" by blast
          with s1 have "fst y = write_all (s # ss1 @ ss2) w"
            by (simp add: write_all_append)
          then show ?thesis by blast
        qed
      qed
    qed
  qed
qed

lemma Gen_writer:
  assumes "Gen order wr sink lc src = Some g" "r_err g = None"
  shows "\<exists>ss e. Writer_Write (order (addr (write_all ss NewWriter))) (write_all ss NewWriter) wr sink
           = Some (e, r_sink g)"
proof -
  obtain ab sy d lc' where lx: "lex_loop [] (0, []) lc src = (ab, sy, d, lc')"
    by (metis prod.exhaust)
  from assms lx have nab: "\<not> ab"
    by (cases ab) (auto simp: Gen_def)
  with assms(1) lx obtain writer errc diag where
    al: "asm_loop (NewReader sy) NewWriter d = Some (writer, errc, diag)"
    by (cases "asm_loop (NewReader sy) NewWriter d") (auto simp: Gen_def)
  from asm_loop_writes [OF al] obtain ss where ss: "writer = write_all ss NewWriter" by auto
  from assms lx nab al have z: "errc = 0"
    by (auto simp: Gen_def split: if_splits)
  from assms(1) lx nab al z obtain e s' where
    "Writer_Write (order (addr writer)) writer wr sink = Some (e, s')" "r_sink g = s'"
    by (cases "Writer_Write (order (addr writer)) writer wr sink")
      (auto simp: Gen_def split: option.splits)
  with ss show ?thesis by auto
qed

text \<open>What the writer records for a reference, and what \<^verbatim>\<open>Write\<close> makes of it.\<close>

lemma patch_reference_writer:
  assumes "inst L = None"
    and "ss = pre @ \<lparr>Type = Id_sym, Val = L, Line = n\<rparr> # post"
    and "w = write_all ss NewWriter"
    and "length (w_buf w) < 2 ^ 32"
    and "set kvs = set (addr w)" "distinct kvs"
  shows "(word_of_nat (length (w_buf (write_all pre NewWriter))), L) \<in> set (addr w)
    \<and> ((\<forall>(i, nm)\<in>set (addr w). lab w nm \<noteq> None) \<longrightarrow>
         (\<exists>b. Writer_Write kvs w file_sink s = Some (None, s @ Hdr @ b)
            \<and> length b = length (w_buf w)
            \<and> (\<forall>k. lab w L = Some k \<longrightarrow>
                 take 4 (drop (length (w_buf (write_all pre NewWriter))) b) = le_bytes k)))
    \<and> ((\<exists>(i, nm)\<in>set (addr w). lab w nm = None) \<longrightarrow>
         (\<exists>nm. nm \<in> snd ` set (addr w) \<and> lab w nm = None
            \<and> Writer_Write kvs w wr s = Some (Some (NoSuchLabel nm), s)))
    \<and> (\<forall>p q m. ss = p @ \<lparr>Type = Label, Val = L, Line = m\<rparr> # q
            \<and> (\<forall>x\<in>set p. \<not> (Type x = Label \<and> Val x = L)) \<longrightarrow>
          lab w L = Some (word_of_nat (length (w_buf (write_all p NewWriter)))))"
proof -
  let ?w1 = "write_all pre NewWriter"
  let ?ref = "\<lparr>Type = Id_sym, Val = L, Line = n\<rparr>"
  let ?w2 = "snd (WriteSymbol ?ref ?w1)"
  from assms(2,3) have w: "w = write_all post ?w2"
    by (simp add: write_all_append)
  from write_all_length [of ?w2 post] w assms(4) have l2: "length (w_buf ?w2) < 2 ^ 32"
    by simp
  with WriteSymbol_length [of ?w1 ?ref] have l1: "length (w_buf ?w1) < 2 ^ 32" by simp
  from winv_write_all [OF winv_New l1] have i1: "winv ?w1" by simp
  from winv_step [OF i1 l2] have i2: "winv ?w2" by simp
  from winv_write_all [OF i2] w assms(4) have iw: "winv w"
    and sub: "set (addr ?w2) \<subseteq> set (addr w)" by simp_all
  from i1 have pc1: "w_pc ?w1 = word_of_nat (length (w_buf ?w1))" by (simp add: winv_def)
  from winv_fresh [OF i1] have u1: "unat (w_pc ?w1) = length (w_buf ?w1)"
    and fr: "w_pc ?w1 \<notin> fst ` set (addr ?w1)" by simp_all
  from assms(1) have "addr ?w2 = AList.update (w_pc ?w1) L (addr ?w1)"
    by (simp add: WriteSymbol_def WriteAddr_def)
  with update_fresh [OF fr] have "(w_pc ?w1, L) \<in> set (addr ?w2)" by simp
  with sub have mem: "(w_pc ?w1, L) \<in> set (addr w)" by blast
  from iw assms(5,6) have ok: "slots_ok kvs (length (w_buf w))"
    by (simp add: winv_def slots_ok_def)
  have A: "(word_of_nat (length (w_buf ?w1)), L) \<in> set (addr w)"
    using mem pc1 by simp
  have B: "\<exists>b. Writer_Write kvs w file_sink s = Some (None, s @ Hdr @ b)
            \<and> length b = length (w_buf w)
            \<and> (\<forall>k. lab w L = Some k \<longrightarrow>
                 take 4 (drop (length (w_buf ?w1)) b) = le_bytes k)"
    if all: "\<forall>(i, nm)\<in>set (addr w). lab w nm \<noteq> None"
  proof -
    from all assms(5) have all': "\<forall>(i, nm)\<in>set kvs. lab w nm \<noteq> None" by simp
    from patch_total [OF ok all'] obtain b where
      b: "patch (lab w) kvs (w_buf w) = Some (Inr b)" "length b = length (w_buf w)"
      by blast
    have "take 4 (drop (length (w_buf ?w1)) b) = le_bytes k" if "lab w L = Some k" for k
      using patch_slot [OF ok all' b(1) _ that, of "w_pc ?w1"] mem assms(5) u1 by simp
    with b show ?thesis
      by (auto simp: Writer_Write_def file_sink_def)
  qed
  have C: "\<exists>nm. nm \<in> snd ` set (addr w) \<and> lab w nm = None
            \<and> Writer_Write kvs w wr s = Some (Some (NoSuchLabel nm), s)"
    if ex: "\<exists>(i, nm)\<in>set (addr w). lab w nm = None"
  proof -
    from ex assms(5) have "\<exists>(i, nm)\<in>set kvs. lab w nm = None" by simp
    from patch_fail [OF ok this] obtain i nm where
      "(i, nm) \<in> set kvs" "lab w nm = None"
      "patch (lab w) kvs (w_buf w) = Some (Inl (NoSuchLabel nm))"
      by blast
    with assms(5) show ?thesis
      by (force simp: Writer_Write_def)
  qed
  have D: "lab w L = Some (word_of_nat (length (w_buf (write_all p NewWriter))))"
    if d: "ss = p @ \<lparr>Type = Label, Val = L, Line = m\<rparr> # q"
      "\<forall>x\<in>set p. \<not> (Type x = Label \<and> Val x = L)" for p q m
  proof -
    let ?wp = "write_all p NewWriter"
    let ?wl = "snd (WriteSymbol \<lparr>Type = Label, Val = L, Line = m\<rparr> ?wp)"
    from d(1) assms(3) have wq: "w = write_all q ?wl" by (simp add: write_all_append)
    from write_all_length [of ?wl q] wq assms(4) have "length (w_buf ?wl) < 2 ^ 32" by simp
    with WriteSymbol_length [of ?wp "\<lparr>Type = Label, Val = L, Line = m\<rparr>"]
    have "length (w_buf ?wp) < 2 ^ 32" by simp
    from winv_write_all [OF winv_New this] have "w_pc ?wp = word_of_nat (length (w_buf ?wp))"
      by (simp add: winv_def)
    moreover from lab_write_all_other [OF d(2), of NewWriter] have "lab ?wp L = None"
      by (simp add: NewWriter_def)
    ultimately have "lab ?wl L = Some (word_of_nat (length (w_buf ?wp)))"
      using lab_define [of ?wp L m] by simp
    from lab_write_all [OF this, of q] wq show ?thesis by simp
  qed
  from A B C D show ?thesis by blast
qed


text \<open>What \<^verbatim>\<open>Gen\<close> does after its loops.\<close>

lemma quiet_werr: "quiet (werr s e d)"
  by (cases d) (simp add: quiet_def werr_def)

lemma lex_loop_quiet:
  "quiet d \<Longrightarrow> lex_loop sy d lc r = (ab, sy', d', lc') \<Longrightarrow> quiet d'"
proof (induction sy d lc r rule: lex_loop.induct)
  case (1 sy d lc r)
  obtain s e l1 r1 where rd: "Read lc r = ((s, e), l1, r1)" by (metis prod.exhaust)
  define d1 where "d1 = (case e of Some x \<Rightarrow> werr s x d | None \<Rightarrow> d)"
  define sy1 where "sy1 = (if Type s \<noteq> Unset then sy @ [s] else sy)"
  have q1: "quiet d1" using 1(2) by (cases e) (simp_all add: d1_def quiet_werr)
  have L: "lex_loop sy d lc r =
      (if fst d1 > ErrThreshold then (True, sy, d1, l1)
       else if Type s = Eof then (False, sy1, d1, l1) else lex_loop sy1 d1 l1 r1)"
    by (subst lex_loop.simps) (simp add: rd d1_def sy1_def Let_def)
  show ?case
  proof (cases "fst d1 > ErrThreshold \<or> Type s = Eof")
    case True
    with L 1(3) q1 show ?thesis by (auto split: if_splits)
  next
    case False
    with L 1(3) have "lex_loop sy1 d1 l1 r1 = (ab, sy', d', lc')" by simp
    from 1(1) [OF rd [symmetric] refl refl d1_def _ sy1_def _ q1 this] False
    show ?thesis by simp
  qed
qed

lemma params_quiet: "quiet d \<Longrightarrow> quiet (snd (snd (params ts rd w d)))"
proof (induction ts arbitrary: rd w d)
  case Nil
  then show ?case by simp
next
  case (Cons t ts)
  obtain s e rd' where x: "Reader_Expect t rd = ((s, e), rd')" by (metis prod.exhaust)
  show ?case
  proof (cases e)
    case (Some a)
    with x Cons.IH [OF quiet_werr, of rd' w s a d] show ?thesis by simp
  next
    case None
    obtain e' w' where ws: "WriteSymbol s w = (e', w')" by (cases "WriteSymbol s w")
    show ?thesis
    proof (cases e')
      case None': None
      with x None ws Cons.IH [OF Cons.prems, of rd' w'] show ?thesis by simp
    next
      case (Some a)
      with x None ws Cons.IH [OF quiet_werr, of rd' w' s a d] show ?thesis by simp
    qed
  qed
qed

lemma asm_loop_quiet:
  assumes "asm_loop rd w d = Some y"
  shows "quiet d \<longrightarrow> quiet (snd y)"
proof (rule asm_loop.raw_induct [where P = "\<lambda>rd w d y. quiet d \<longrightarrow> quiet (snd y)", OF _ assms])
  fix loop :: "Reader \<Rightarrow> Writer \<Rightarrow> nat \<times> string list \<Rightarrow> (Writer \<times> nat \<times> string list) option"
    and rd w d y
  assume ih: "\<And>rd w d y. loop rd w d = Some y \<Longrightarrow> quiet d \<longrightarrow> quiet (snd y)"
    and body: "(case Reader_Expect Id_sym rd of
      ((s, e), rd') \<Rightarrow>
        if Type s = Eof then Some (w, d)
        else case e of
             None \<Rightarrow>
               if Type s \<noteq> Label
               then case inst (Val s) of
                    None \<Rightarrow> loop rd' w (werr s (BadInstruction (Val s)) d)
                    | Some f \<Rightarrow>
                        case params (Params f) rd' (snd (WriteSymbol s w)) d of
                        (rd'', w', d') \<Rightarrow> loop rd'' w' d'
               else case WriteSymbol s w of (None, w') \<Rightarrow> loop rd' w' d
                    | (Some x, w') \<Rightarrow> loop rd' w' (werr s x d)
             | Some x \<Rightarrow> loop rd' w (werr s x d)) = Some y"
  obtain s e rd' where x: "Reader_Expect Id_sym rd = ((s, e), rd')" by (metis prod.exhaust)
  show "quiet d \<longrightarrow> quiet (snd y)"
  proof
    assume q: "quiet d"
    show "quiet (snd y)"
    proof (cases "Type s = Eof")
      case True
      with body x q show ?thesis by auto
    next
      case ne: False
      show ?thesis
      proof (cases e)
        case (Some a)
        with body x ne have "loop rd' w (werr s a d) = Some y" by simp
        from ih [OF this] quiet_werr show ?thesis by simp
      next
        case None
        show ?thesis
        proof (cases "Type s = Label")
          case True
          obtain e' w' where ws: "WriteSymbol s w = (e', w')" by (cases "WriteSymbol s w")
          show ?thesis
          proof (cases e')
            case None': None
            with body x ne None True ws have "loop rd' w' d = Some y" by simp
            from ih [OF this] q show ?thesis by simp
          next
            case (Some a)
            with body x ne None True ws have "loop rd' w' (werr s a d) = Some y" by simp
            from ih [OF this] quiet_werr show ?thesis by simp
          qed
        next
          case nl: False
          show ?thesis
          proof (cases "inst (Val s)")
            case None': None
            with body x ne None nl
            have "loop rd' w (werr s (BadInstruction (Val s)) d) = Some y" by simp
            from ih [OF this] quiet_werr show ?thesis by simp
          next
            case (Some f)
            let ?w1 = "snd (WriteSymbol s w)"
            obtain rd'' w' d' where p: "params (Params f) rd' ?w1 d = (rd'', w', d')"
              by (metis prod.exhaust)
            from params_quiet [OF q, of "Params f" rd' ?w1] p have q': "quiet d'" by simp
            from body x ne None nl Some p have "loop rd'' w' d' = Some y" by simp
            from ih [OF this] q' show ?thesis by simp
          qed
        qed
      qed
    qed
  qed
qed

lemma Gen_after_loops:
  assumes "lex_loop [] (0, []) lc src = (False, sy, d, lc')"
    and "asm_loop (NewReader sy) NewWriter d = Some (w, 0, diag)"
  shows "diag = []"
    and "Gen order wr s lc src =
      (case Writer_Write (order (addr w)) w wr s of
         None \<Rightarrow> None
       | Some (Some x, s') \<Rightarrow>
           Some \<lparr>r_sym = sy, r_err = None, r_sink = s',
                 r_diag = [error_string x @ [newline]], r_lc = lc'\<rparr>
       | Some (None, s') \<Rightarrow>
           Some \<lparr>r_sym = sy, r_err = None, r_sink = s', r_diag = [], r_lc = lc'\<rparr>)"
proof -
  have "quiet (0, [])" by (simp add: quiet_def)
  from lex_loop_quiet [OF this assms(1)] have "quiet d" .
  with asm_loop_quiet [OF assms(2)] show dg: "diag = []" by (simp add: quiet_def)
  with assms show "Gen order wr s lc src =
      (case Writer_Write (order (addr w)) w wr s of
         None \<Rightarrow> None
       | Some (Some x, s') \<Rightarrow>
           Some \<lparr>r_sym = sy, r_err = None, r_sink = s',
                 r_diag = [error_string x @ [newline]], r_lc = lc'\<rparr>
       | Some (None, s') \<Rightarrow>
           Some \<lparr>r_sym = sy, r_err = None, r_sink = s', r_diag = [], r_lc = lc'\<rparr>)"
    by (simp add: Gen_def split: option.splits prod.splits)
qed

lemma Gen_counted_errors:
  assumes "lex_loop [] (0, []) lc src = (False, sy, d, lc')"
    and "asm_loop (NewReader sy) NewWriter d = Some (w, errc, diag)" "0 < errc"
  shows "Gen order wr s lc src =
      Some \<lparr>r_sym = sy,
            r_err = Some (if errc > ErrThreshold then ErrorCountShown errc ErrThreshold
                          else ErrorCount errc),
            r_sink = s, r_diag = diag, r_lc = lc'\<rparr>"
  using assms by (simp add: Gen_def)

text \<open>The source \<^verbatim>\<open>j f\<close>, \<^verbatim>\<open>a\<close>: the label is missing and the second line is no
  instruction. \<^verbatim>\<open>Gen\<close> returns \<^verbatim>\<open>1 errors\<close> and prints the one diagnostic.\<close>

lemma missing_label_after_error:
  "Gen_view (Gen insertion_order file_sink [] 0 (jf_src @ bad_line))
     = Some (Some (ErrorCount 1),
             [''2: bad instruction '' @ [CHR 0x27] @ ''a'' @ [CHR 0x27, newline]], [])
   \<and> error_string (ErrorCount 1) = ''1 errors''"
  by (simp add: jf_src_def bad_line_def Gen_view_def insertion_order_def asm_defs)

text \<open>
  C7 (as stated it fails for a label named like a mnemonic, and \<^verbatim>\<open>Gen\<close> returns nil
  when a label is missing). What holds, for the writer \<open>w\<close> after any calls of
  \<^verbatim>\<open>WriteSymbol\<close> from a new writer (\<open>ss\<close>, with the buffer below \<open>2^32\<close> bytes),
  one of them a reference to a name \<open>L\<close> that is no mnemonic, and for any order
  \<open>kvs\<close> in which \<^verbatim>\<open>Write\<close> ranges over the patches:
  the reference is recorded as a patch at its code offset; when every referenced
  label is defined, \<^verbatim>\<open>Write\<close> emits the header and the code, and the four bytes at
  that offset of the code are the little-endian bytes of the value of \<open>L\<close>; when
  some referenced label is not defined, \<^verbatim>\<open>Write\<close> emits nothing and returns
  \<^verbatim>\<open>name: no such label\<close> for a referenced name that is not defined; the value
  of \<open>L\<close> is the code offset of the first label statement for \<open>L\<close>. And for
  every source on which the loops of \<^verbatim>\<open>Gen\<close> end with this writer: when they have
  counted no error, \<^verbatim>\<open>Gen\<close> returns nil in both cases, with the header and the
  patched code in the sink in the first, and with nothing in the sink and the one
  line \<^verbatim>\<open>name: no such label\<close> in the diagnostics in the second; when they have
  counted an error, \<^verbatim>\<open>Gen\<close> returns the count, leaves the sink as it was and prints
  nothing after the diagnostics of the loops.
\<close>

theorem label_reference_patched:
  assumes "inst L = None"
    and "ss = pre @ \<lparr>Type = Id_sym, Val = L, Line = n\<rparr> # post"
    and "w = write_all ss NewWriter"
    and "length (w_buf w) < 2 ^ 32"
    and "set kvs = set (addr w)" "distinct kvs"
  shows "(word_of_nat (length (w_buf (write_all pre NewWriter))), L) \<in> set (addr w)
    \<and> ((\<forall>(i, nm)\<in>set (addr w). lab w nm \<noteq> None) \<longrightarrow>
         (\<exists>b. Writer_Write kvs w file_sink s = Some (None, s @ Hdr @ b)
            \<and> length b = length (w_buf w)
            \<and> (\<forall>k. lab w L = Some k \<longrightarrow>
                 take 4 (drop (length (w_buf (write_all pre NewWriter))) b) = le_bytes k)
            \<and> (\<forall>order lc src. order (addr w) = kvs \<and> Gen_loops lc src = Some (False, w, 0, diag) \<longrightarrow>
                 Gen_view (Gen order file_sink s lc src) = Some (None, [], s @ Hdr @ b))))
    \<and> ((\<exists>(i, nm)\<in>set (addr w). lab w nm = None) \<longrightarrow>
         (\<exists>nm. nm \<in> snd ` set (addr w) \<and> lab w nm = None
            \<and> Writer_Write kvs w wr s = Some (Some (NoSuchLabel nm), s)
            \<and> (\<forall>order lc src. order (addr w) = kvs \<and> Gen_loops lc src = Some (False, w, 0, diag) \<longrightarrow>
                 Gen_view (Gen order wr s lc src)
                   = Some (None, [error_string (NoSuchLabel nm) @ [newline]], s))))
    \<and> (\<forall>p q m. ss = p @ \<lparr>Type = Label, Val = L, Line = m\<rparr> # q
            \<and> (\<forall>x\<in>set p. \<not> (Type x = Label \<and> Val x = L)) \<longrightarrow>
          lab w L = Some (word_of_nat (length (w_buf (write_all p NewWriter)))))
    \<and> (\<forall>order lc src errc. Gen_loops lc src = Some (False, w, errc, diag) \<and> 0 < errc \<longrightarrow>
          Gen_view (Gen order wr s lc src)
            = Some (Some (if errc > ErrThreshold then ErrorCountShown errc ErrThreshold
                          else ErrorCount errc), diag, s))"
proof -
  have G0: "Gen_view (Gen order wr' s' lc src) =
      (case Writer_Write kvs w wr' s' of
         None \<Rightarrow> None
       | Some (Some x, s'') \<Rightarrow> Some (None, [error_string x @ [newline]], s'')
       | Some (None, s'') \<Rightarrow> Some (None, [], s''))"
    if "order (addr w) = kvs" "Gen_loops lc src = Some (False, w, 0, diag)"
    for order lc src and wr' :: "byte list \<Rightarrow> byte list \<Rightarrow> asm_error option \<times> byte list" and s'
  proof -
    from that(2) obtain sy d lc' where
      lx: "lex_loop [] (0, []) lc src = (False, sy, d, lc')"
      and al: "asm_loop (NewReader sy) NewWriter d = Some (w, 0, diag)"
      by (auto simp: Gen_loops_def split: prod.splits)
    from Gen_after_loops(2) [OF lx al, of order wr' s'] that(1) show ?thesis
      by (simp add: Gen_view_def split: option.splits prod.splits)
  qed
  have G1: "Gen_view (Gen order wr s lc src)
            = Some (Some (if errc > ErrThreshold then ErrorCountShown errc ErrThreshold
                          else ErrorCount errc), diag, s)"
    if "Gen_loops lc src = Some (False, w, errc, diag)" "0 < errc" for order lc src errc
  proof -
    from that(1) obtain sy d lc' where
      lx: "lex_loop [] (0, []) lc src = (False, sy, d, lc')"
      and al: "asm_loop (NewReader sy) NewWriter d = Some (w, errc, diag)"
      by (auto simp: Gen_loops_def split: prod.splits)
    from Gen_counted_errors [OF lx al that(2), of order wr s] show ?thesis
      by (simp add: Gen_view_def)
  qed
  from patch_reference_writer [OF assms, of s wr]
  have A: "(word_of_nat (length (w_buf (write_all pre NewWriter))), L) \<in> set (addr w)"
    and B: "(\<forall>(i, nm)\<in>set (addr w). lab w nm \<noteq> None) \<longrightarrow>
         (\<exists>b. Writer_Write kvs w file_sink s = Some (None, s @ Hdr @ b)
            \<and> length b = length (w_buf w)
            \<and> (\<forall>k. lab w L = Some k \<longrightarrow>
                 take 4 (drop (length (w_buf (write_all pre NewWriter))) b) = le_bytes k))"
    and C: "(\<exists>(i, nm)\<in>set (addr w). lab w nm = None) \<longrightarrow>
         (\<exists>nm. nm \<in> snd ` set (addr w) \<and> lab w nm = None
            \<and> Writer_Write kvs w wr s = Some (Some (NoSuchLabel nm), s))"
    and D: "\<forall>p q m. ss = p @ \<lparr>Type = Label, Val = L, Line = m\<rparr> # q
            \<and> (\<forall>x\<in>set p. \<not> (Type x = Label \<and> Val x = L)) \<longrightarrow>
          lab w L = Some (word_of_nat (length (w_buf (write_all p NewWriter))))"
    by blast+
  have B': "\<exists>b. Writer_Write kvs w file_sink s = Some (None, s @ Hdr @ b)
            \<and> length b = length (w_buf w)
            \<and> (\<forall>k. lab w L = Some k \<longrightarrow>
                 take 4 (drop (length (w_buf (write_all pre NewWriter))) b) = le_bytes k)
            \<and> (\<forall>order lc src. order (addr w) = kvs \<and> Gen_loops lc src = Some (False, w, 0, diag) \<longrightarrow>
                 Gen_view (Gen order file_sink s lc src) = Some (None, [], s @ Hdr @ b))"
    if "\<forall>(i, nm)\<in>set (addr w). lab w nm \<noteq> None"
  proof -
    from B that obtain b where b: "Writer_Write kvs w file_sink s = Some (None, s @ Hdr @ b)"
      "length b = length (w_buf w)"
      "\<forall>k. lab w L = Some k \<longrightarrow>
         take 4 (drop (length (w_buf (write_all pre NewWriter))) b) = le_bytes k"
      by blast
    have "Gen_view (Gen order file_sink s lc src) = Some (None, [], s @ Hdr @ b)"
      if "order (addr w) = kvs" "Gen_loops lc src = Some (False, w, 0, diag)" for order lc src
      using G0 [of order lc src file_sink s] that b(1) by simp
    with b show ?thesis by blast
  qed
  have C': "\<exists>nm. nm \<in> snd ` set (addr w) \<and> lab w nm = None
            \<and> Writer_Write kvs w wr s = Some (Some (NoSuchLabel nm), s)
            \<and> (\<forall>order lc src. order (addr w) = kvs \<and> Gen_loops lc src = Some (False, w, 0, diag) \<longrightarrow>
                 Gen_view (Gen order wr s lc src)
                   = Some (None, [error_string (NoSuchLabel nm) @ [newline]], s))"
    if "\<exists>(i, nm)\<in>set (addr w). lab w nm = None"
  proof -
    from C that obtain nm where nm: "nm \<in> snd ` set (addr w)" "lab w nm = None"
      "Writer_Write kvs w wr s = Some (Some (NoSuchLabel nm), s)"
      by blast
    have "Gen_view (Gen order wr s lc src)
                   = Some (None, [error_string (NoSuchLabel nm) @ [newline]], s)"
      if "order (addr w) = kvs" "Gen_loops lc src = Some (False, w, 0, diag)" for order lc src
      using G0 [of order lc src wr s] that nm(3) by simp
    with nm show ?thesis by blast
  qed
  from A B' C' D G1 show ?thesis by blast
qed

theorem label_reference_patched_witness:
  "inst ''f'' = None
   \<and> call_syms = [\<lparr>Type = Id_sym, Val = ''call'', Line = 0\<rparr>]
        @ \<lparr>Type = Id_sym, Val = ''f'', Line = 1\<rparr> # drop 2 call_syms
   \<and> length (w_buf (write_all call_syms NewWriter)) < 2 ^ 32
   \<and> addr (write_all call_syms NewWriter) = [(1, ''f'')]
   \<and> lab (write_all call_syms NewWriter) ''f'' = Some 6
   \<and> Writer_Write [(1, ''f'')] (write_all call_syms NewWriter) file_sink []
        = Some (None, Hdr @ [OpCall, 6, 0, 0, 0, OpExit, OpJr, 3])
   \<and> Gen_loops 0 call_src = Some (False, write_all call_syms NewWriter, 0, [])
   \<and> Gen_view (Gen insertion_order file_sink [] 0 call_src)
        = Some (None, [], Hdr @ [OpCall, 6, 0, 0, 0, OpExit, OpJr, 3])
   \<and> jf_syms = [\<lparr>Type = Id_sym, Val = ''j'', Line = 0\<rparr>] @ \<lparr>Type = Id_sym, Val = ''f'', Line = 1\<rparr> # []
   \<and> addr (write_all jf_syms NewWriter) = [(1, ''f'')]
   \<and> lab (write_all jf_syms NewWriter) ''f'' = None
   \<and> Writer_Write [(1, ''f'')] (write_all jf_syms NewWriter) file_sink []
        = Some (Some (NoSuchLabel ''f''), [])
   \<and> Gen_loops 0 jf_src = Some (False, write_all jf_syms NewWriter, 0, [])
   \<and> Gen_view (Gen insertion_order file_sink [] 0 jf_src)
        = Some (None, [''f: no such label'' @ [newline]], [])"
  using label_reference_patched [of "''f''" call_syms "[\<lparr>Type = Id_sym, Val = ''call'', Line = 0\<rparr>]"
      1 "drop 2 call_syms" "write_all call_syms NewWriter" "[(1, ''f'')]" "[]" "[]" file_sink]
    label_reference_patched [of "''f''" jf_syms "[\<lparr>Type = Id_sym, Val = ''j'', Line = 0\<rparr>]"
      1 "[]" "write_all jf_syms NewWriter" "[(1, ''f'')]" "[]" "[]" file_sink]
  by (simp add: call_syms_def jf_syms_def call_src_def jf_src_def Gen_loops_def write_all_def
      Gen_view_def insertion_order_def asm_defs)

text \<open>
  The source \<^verbatim>\<open>p:\<close>, \<^verbatim>\<open>j p\<close> defines the label \<open>p\<close> at offset 0 and refers to it in
  an address position: it assembles with no error to the opcode of \<^verbatim>\<open>j\<close> followed by
  the single byte 08 (the opcode of \<^verbatim>\<open>p\<close>), not by the four bytes of 0. The source
  \<^verbatim>\<open>j f\<close> with no label \<open>f\<close>: \<^verbatim>\<open>Gen\<close> prints \<^verbatim>\<open>f: no such label\<close>, emits nothing and
  returns nil.
\<close>

theorem mnemonic_label_not_patched:
  "Gen_view (Gen insertion_order file_sink [] 0 (''p:'' @ [newline] @ ''j p'' @ [newline]))
     = Some (None, [], Hdr @ [OpJ, OpP])
   \<and> Gen_view (Gen insertion_order file_sink [] 0 (''j f'' @ [newline]))
     = Some (None, [''f: no such label'' @ [newline]], [])"
  by (simp add: Gen_view_def insertion_order_def asm_defs)


subsection \<open>A failing sink\<close>

text \<open>
  C9. Whenever \<^verbatim>\<open>Gen\<close> assembles a source with no diagnostic into a sink that
  takes the writes (the header, then the code \<open>b\<close>), the same call with any other
  sink \<open>wr\<close> also returns nil: when the write of the header or of the code fails,
  the sink's error is printed to the diagnostics writer and nothing else tells the
  caller. The source \<^verbatim>\<open>exit\<close> with a sink whose writes fail is such an input.
\<close>

theorem sink_failure_not_propagated:
  assumes "Gen order file_sink s0 lc src = Some g" "r_err g = None" "r_diag g = []"
  shows "\<exists>g' b. r_sink g = s0 @ Hdr @ b \<and> Gen order wr s lc src = Some g' \<and> r_err g' = None
     \<and> (r_sink g', r_diag g') =
         (case wr Hdr s of
            (Some e, s') \<Rightarrow> (s', [error_string e @ [newline]])
          | (None, s') \<Rightarrow>
              (case wr b s' of
                 (Some e, s'') \<Rightarrow> (s'', [error_string e @ [newline]])
               | (None, s'') \<Rightarrow> (s'', [])))"
proof -
  obtain ab sy d lc' where lx: "lex_loop [] (0, []) lc src = (ab, sy, d, lc')"
    by (metis prod.exhaust)
  from assms(1,2) lx have nab: "\<not> ab"
    by (cases ab) (auto simp: Gen_def)
  with assms(1) lx obtain writer errc diag where
    al: "asm_loop (NewReader sy) NewWriter d = Some (writer, errc, diag)"
    by (cases "asm_loop (NewReader sy) NewWriter d") (auto simp: Gen_def)
  from assms(1,2) lx nab al have z: "errc = 0"
    by (auto simp: Gen_def split: if_splits)
  from assms(1) lx nab al z obtain r where
    p: "patch (lab writer) (order (addr writer)) (w_buf writer) = Some r"
    by (cases "patch (lab writer) (order (addr writer)) (w_buf writer)")
      (auto simp: Gen_def Writer_Write_def)
  from assms(1,3) lx nab al z p obtain b where b: "r = Inr b" and dg: "diag = []"
    by (cases r) (auto simp: Gen_def Writer_Write_def file_sink_def)
  from assms(1) lx nab al z p b have "r_sink g = s0 @ Hdr @ b"
    by (auto simp: Gen_def Writer_Write_def file_sink_def)
  moreover obtain e1 s1 where w1: "wr Hdr s = (e1, s1)" by (cases "wr Hdr s")
  moreover obtain e2 s2 where w2: "wr b s1 = (e2, s2)" by (cases "wr b s1")
  ultimately show ?thesis
    using lx nab al z p b dg
    by (cases e1; cases e2) (simp_all add: Gen_def Writer_Write_def)
qed

theorem sink_failure_not_propagated_witness:
  "Gen_view (Gen insertion_order file_sink [] 0 (''exit'' @ [newline]))
     = Some (None, [], Hdr @ [OpExit])
   \<and> Gen_view (Gen insertion_order failing_sink [] 0 (''exit'' @ [newline]))
     = Some (None, [error_string SinkFailure @ [newline]], [])"
  using sink_failure_not_propagated [of insertion_order "[]" 0 "''exit'' @ [newline]" _ failing_sink "[]"]
  by (simp add: Gen_view_def insertion_order_def asm_defs)

subsection \<open>A final token with no white space after it\<close>

lemma IsSpace_newline: "IsSpace newline"
  by (simp add: IsSpace_def newline_def)

lemma IsLetter_props:
  assumes "IsLetter c"
  shows "IsGraphic c" "\<not> IsSpace c" "c \<noteq> CHR ''#''" "c \<noteq> newline"
  using assms
  by (auto simp: IsLetter_def IsGraphic_def IsSpace_def newline_def Let_def)

lemma syms_props:
  assumes "syms c = Some t"
  shows "IsGraphic c" "\<not> IsSpace c" "c \<noteq> CHR ''#''" "c \<noteq> newline"
  using assms
  by (auto simp: syms_def IsGraphic_def IsSpace_def newline_def Let_def split: if_splits)

lemma ReadToken_eof:
  "\<forall>c\<in>set r. \<not> IsSpace c \<Longrightarrow> ReadToken b lc r = (None, lc, [])"
proof (induction r arbitrary: b)
  case Nil
  then show ?case by simp
next
  case (Cons c r)
  then have "c \<noteq> newline" using IsSpace_newline by auto
  with Cons show ?case by simp
qed

lemma ReadToken_append:
  assumes "\<forall>c\<in>set tok. \<not> IsSpace c"
  shows "ReadToken b lc (r @ tok) =
     (case ReadToken b lc r of
        (Some s, lc', r') \<Rightarrow> (Some s, lc', r' @ tok)
      | (None, lc', r') \<Rightarrow> (None, lc', []))"
proof (induction r arbitrary: b lc)
  case Nil
  from ReadToken_eof [OF assms] show ?case by simp
next
  case (Cons c r)
  then show ?case by (simp add: Let_def)
qed

lemma ReadToken_suffix:
  "ReadToken b lc r = (t, lc', r') \<Longrightarrow> \<exists>p. r = p @ r'"
proof (induction r arbitrary: b lc)
  case Nil
  then show ?case by simp
next
  case (Cons c r)
  show ?case
  proof (cases "IsSpace c")
    case True
    with Cons.prems have "r' = r" by (simp add: Let_def)
    then have "c # r = [c] @ r'" by simp
    then show ?thesis by blast
  next
    case False
    with Cons.prems obtain p where "r = p @ r'"
      using Cons.IH by (auto simp: Let_def)
    then have "c # r = (c # p) @ r'" by simp
    then show ?thesis by blast
  qed
qed

lemma ReadToken_None_rest: "ReadToken b lc r = (None, lc', r') \<Longrightarrow> r' = []"
  by (induction r arbitrary: b lc) (auto simp: Let_def split: if_splits)

lemma Read_tok_eof:
  assumes "\<forall>c\<in>set tok. \<not> IsSpace c" "tok \<noteq> []" "IsLetter (hd tok) \<or> syms (hd tok) \<noteq> None"
  shows "Read lc tok = ((Symbol_unset\<lparr>Type := Eof\<rparr>, None), lc, [])"
proof -
  from assms(2) obtain c cs where t: "tok = c # cs" by (cases tok) auto
  with assms(1) have ns: "\<not> IsSpace c" and rest: "\<forall>c\<in>set cs. \<not> IsSpace c" by auto
  show ?thesis
  proof (cases "syms c")
    case (Some k)
    from syms_props [OF Some] ReadToken_eof [OF rest] Some t show ?thesis
      by (simp add: Let_def)
  next
    case None
    with assms(3) t have l: "IsLetter c" by simp
    from ReadToken_eof [OF assms(1)] t have "ReadToken [] lc (c # cs) = (None, lc, [])"
      by simp
    with IsLetter_props [OF l] None l t show ?thesis
      by (simp add: Let_def del: ReadToken.simps)
  qed
qed

lemma dropWhile_suffix: "\<exists>p. r = p @ drop n (dropWhile P r)"
  by (metis append.assoc append_take_drop_id takeWhile_dropWhile_id)

lemma Read_suffix: "Read lc r = (x, lc', r') \<Longrightarrow> \<exists>p. r = p @ r'"
proof (induction lc r rule: Read.induct)
  case (1 lc)
  then show ?case by simp
next
  case (2 lc c r)
  note ih = 2(1,2) [OF refl]
  have step: "\<exists>p. c # r = p @ r'" if "\<exists>p. r = p @ r'"
  proof -
    from that obtain p where "r = p @ r'" by blast
    then have "c # r = (c # p) @ r'" by simp
    then show ?thesis by blast
  qed
  show ?case
  proof (cases "c = CHR ''#''")
    case True
    with 2(3) have "r' = drop 1 (dropWhile (\<lambda>x. x \<noteq> newline) r)" by (auto simp: Let_def)
    with dropWhile_suffix [of r 1 "\<lambda>x. x \<noteq> newline"] step show ?thesis by simp
  next
    case nh: False
    show ?thesis
    proof (cases "IsSpace c")
      case True
      with nh ih(1) 2(3) step show ?thesis by (simp add: Let_def)
    next
      case ns: False
      show ?thesis
      proof (cases "IsGraphic c")
        case False
        with nh ns 2(3) have "r' = r" by (auto simp: Let_def)
        with step show ?thesis by blast
      next
        case g: True
        show ?thesis
        proof (cases "syms c")
          case (Some t)
          with nh ns g 2(3) obtain tk l where
            "ReadToken [] (if c = newline then lc + 1 else lc) r = (tk, l, r')"
            by (auto simp: Let_def split: option.splits prod.splits)
          from ReadToken_suffix [OF this] step show ?thesis by blast
        next
          case None
          show ?thesis
          proof (cases "IsLetter c")
            case True
            with nh ns g None 2(3) obtain tk l where
              "ReadToken [] (if c = newline then lc + 1 else lc) (c # r) = (tk, l, r')"
              by (auto simp: Let_def simp del: ReadToken.simps
                  split: option.splits prod.splits if_splits)
            from ReadToken_suffix [OF this] show ?thesis .
          next
            case False
            with nh ns g None ih(2) 2(3) step show ?thesis by (simp add: Let_def)
          qed
        qed
      qed
    qed
  qed
qed

lemma ends_token_suffix: "ends_token (p @ r') \<Longrightarrow> ends_token r'"
  by (cases "r' = []") (auto simp: ends_token_def)

lemma ends_token_Cons: "ends_token (c # r) \<Longrightarrow> ends_token r"
  using ends_token_suffix [of "[c]" r] by simp

lemma Read_append:
  assumes tok: "\<forall>c\<in>set tok. \<not> IsSpace c" "tok \<noteq> []"
      "IsLetter (hd tok) \<or> syms (hd tok) \<noteq> None"
  shows "ends_token r \<Longrightarrow> Read lc r = (x, lc', r') \<Longrightarrow>
     Read lc (r @ tok) = (x, lc', r' @ tok) \<or> (r' = [] \<and> Read lc (r @ tok) = (x, lc', []))"
proof (induction lc r rule: Read.induct)
  case (1 lc)
  with Read_tok_eof [OF tok, of lc] show ?case by auto
next
  case (2 lc c r)
  note ih = 2(1,2) [OF refl]
  from 2(3) have er: "ends_token r" by (rule ends_token_Cons)
  have nonl: "\<forall>c\<in>set tok. c \<noteq> newline" using tok(1) IsSpace_newline by auto
  define P where "P = (\<lambda>x. x \<noteq> newline)"
  show ?case
  proof (cases "c = CHR ''#''")
    case True
    then have R1: "Read lc (c # r) = ((Symbol_unset, None), lc + 1, drop 1 (dropWhile P r))"
      and R2: "Read lc ((c # r) @ tok)
          = ((Symbol_unset, None), lc + 1, drop 1 (dropWhile P (r @ tok)))"
      by (simp_all add: Let_def P_def newline_def del: dropWhile_append)
    from 2(4) [unfolded R1] have x: "x = (Symbol_unset, None)" "lc' = lc + 1"
      "r' = drop 1 (dropWhile P r)"
      by simp_all
    show ?thesis
    proof (cases "newline \<in> set r")
      case True
      then have "dropWhile P (r @ tok) = dropWhile P r @ tok"
        unfolding P_def by (intro dropWhile_append1) auto
      moreover from True have "dropWhile P r \<noteq> []"
        by (simp add: dropWhile_eq_Nil_conv P_def)
      ultimately have "drop 1 (dropWhile P (r @ tok)) = drop 1 (dropWhile P r) @ tok"
        by (cases "dropWhile P r") auto
      with R2 x show ?thesis by (simp only:) simp
    next
      case False
      then have "dropWhile P (r @ tok) = dropWhile P tok"
        unfolding P_def by (intro dropWhile_append2) auto
      also from nonl have "\<dots> = []" by (simp add: dropWhile_eq_Nil_conv P_def)
      finally have "dropWhile P (r @ tok) = []" .
      then have a: "drop 1 (dropWhile P (r @ tok)) = []" by (simp only: drop_Nil)
      from False have "dropWhile P r = []"
        by (auto simp: dropWhile_eq_Nil_conv P_def)
      then have b: "drop 1 (dropWhile P r) = []" by (simp only: drop_Nil)
      from x(3) b have "r' = []" by (simp only:)
      moreover from R2 a x have "Read lc ((c # r) @ tok) = (x, lc', [])" by (simp only:)
      ultimately show ?thesis by blast
    qed
  next
    case nh: False
    show ?thesis
    proof (cases "IsSpace c")
      case True
      with nh ih(1) [OF _ _ er] 2(4) show ?thesis by (simp add: Let_def)
    next
      case ns: False
      show ?thesis
      proof (cases "IsGraphic c")
        case False
        with nh ns 2(4) show ?thesis by (auto simp: Let_def)
      next
        case g: True
        show ?thesis
        proof (cases "syms c")
          case (Some t)
          with nh ns g 2(4) ReadToken_append [OF tok(1), of "[]" _ r] show ?thesis
            by (auto simp: Let_def split: option.splits prod.splits dest: ReadToken_None_rest)
        next
          case None
          show ?thesis
          proof (cases "IsLetter c")
            case True
            have "ReadToken [] l ((c # r) @ tok) =
               (case ReadToken [] l (c # r) of
                  (Some s, lc', r') \<Rightarrow> (Some s, lc', r' @ tok)
                | (None, lc', r') \<Rightarrow> (None, lc', []))" for l
              by (rule ReadToken_append [OF tok(1)])
            with True nh ns g None 2(4) show ?thesis
              by (auto simp: Let_def simp del: ReadToken.simps
                  split: option.splits prod.splits if_splits dest: ReadToken_None_rest)
          next
            case False
            with nh ns g None ih(2) [OF _ _ _ _ _ er] 2(4) show ?thesis by (simp add: Let_def)
          qed
        qed
      qed
    qed
  qed
qed

lemma lex_loop_append:
  assumes tok: "\<forall>c\<in>set tok. \<not> IsSpace c" "tok \<noteq> []"
      "IsLetter (hd tok) \<or> syms (hd tok) \<noteq> None"
  shows "ends_token r \<Longrightarrow> lex_loop sy d lc (r @ tok) = lex_loop sy d lc r"
proof (induction sy d lc r rule: lex_loop.induct)
  case (1 sy d lc r)
  obtain s e lc' r' where rd: "Read lc r = ((s, e), lc', r')"
    by (metis prod.exhaust)
  from Read_suffix [OF rd] 1(2) have er': "ends_token r'"
    using ends_token_suffix by blast
  define d' where "d' = (case e of Some x \<Rightarrow> werr s x d | None \<Rightarrow> d)"
  define sy' where "sy' = (if Type s \<noteq> Unset then sy @ [s] else sy)"
  have L: "lex_loop sy d lc r =
      (if fst d' > ErrThreshold then (True, sy, d', lc')
       else if Type s = Eof then (False, sy', d', lc') else lex_loop sy' d' lc' r')"
    by (subst lex_loop.simps) (simp add: rd d'_def sy'_def Let_def)
  from Read_append [OF tok 1(2) rd]
  consider (more) "Read lc (r @ tok) = ((s, e), lc', r' @ tok)"
    | (fin) "r' = []" "Read lc (r @ tok) = ((s, e), lc', [])"
    by blast
  then show ?case
  proof cases
    case more
    have R: "lex_loop sy d lc (r @ tok) =
      (if fst d' > ErrThreshold then (True, sy, d', lc')
       else if Type s = Eof then (False, sy', d', lc') else lex_loop sy' d' lc' (r' @ tok))"
      by (subst lex_loop.simps) (simp add: more d'_def sy'_def Let_def)
    have "lex_loop sy' d' lc' (r' @ tok) = lex_loop sy' d' lc' r'"
      if "\<not> fst d' > ErrThreshold" "Type s \<noteq> Eof"
      using 1(1) [OF rd [symmetric] refl refl d'_def that(1) sy'_def that(2) er'] .
    with L R show ?thesis by simp
  next
    case fin
    have R: "lex_loop sy d lc (r @ tok) =
      (if fst d' > ErrThreshold then (True, sy, d', lc')
       else if Type s = Eof then (False, sy', d', lc') else lex_loop sy' d' lc' [])"
      by (subst lex_loop.simps) (simp add: fin d'_def sy'_def Let_def)
    with L fin(1) show ?thesis by simp
  qed
qed

text \<open>
  C10. Let the source be \<open>pre @ tok\<close>, where \<open>pre\<close> is empty or ends in white
  space and \<open>tok\<close> is a final token: it starts with a letter or a sigil and has no
  white space in it. \<^verbatim>\<open>Read\<close> at \<open>tok\<close> returns the end-of-file symbol with no
  error, and \<^verbatim>\<open>Gen\<close> does on \<open>pre @ tok\<close> exactly what it does on \<open>pre\<close>: same
  symbols, same bytes, same diagnostics. The source \<^verbatim>\<open>exit\<close> with no newline gives
  the header alone.
\<close>

theorem final_token_discarded:
  assumes "tok \<noteq> []" "IsLetter (hd tok) \<or> syms (hd tok) \<noteq> None"
      "\<forall>c\<in>set tok. \<not> IsSpace c" "pre = [] \<or> IsSpace (last pre)"
  shows "Read lc tok = ((\<lparr>Type = Eof, Val = [], Line = 0\<rparr>, None), lc, [])
     \<and> Gen order wr sink lc (pre @ tok) = Gen order wr sink lc pre"
proof -
  from assms(4) have "ends_token pre" by (simp add: ends_token_def)
  from lex_loop_append [OF assms(3,1,2) this]
  have "Gen order wr sink lc (pre @ tok) = Gen order wr sink lc pre"
    by (simp add: Gen_def)
  with Read_tok_eof [OF assms(3,1,2), of lc] show ?thesis
    by (simp add: Symbol_unset_def)
qed

theorem final_token_discarded_witness:
  "''exit'' \<noteq> [] \<and> IsLetter (hd ''exit'') \<and> list_all (\<lambda>c. \<not> IsSpace c) ''exit''
   \<and> Read 0 ''exit'' = ((\<lparr>Type = Eof, Val = [], Line = 0\<rparr>, None), 0, [])
   \<and> Gen_view (Gen insertion_order file_sink [] 0 ''exit'') = Some (None, [], Hdr)
   \<and> Gen_view (Gen insertion_order file_sink [] 0 (''exit'' @ [newline]))
       = Some (None, [], Hdr @ [OpExit])"
  using final_token_discarded [of "''exit''" "[]" 0 insertion_order file_sink "[]"]
  by (simp add: Gen_view_def insertion_order_def asm_defs)

end
